theory Spec2Isabelle
  imports Main "HOL-Library.FSet" "HOL-Library.Product_Lexorder"
begin

section \<open>The knowledge engine of the Minesweeper player\<close>

text \<open>
  The theory embeds the classes \<^verbatim>\<open>Sentence\<close> and \<^verbatim>\<open>MinesweeperAI\<close> of
  \<^verbatim>\<open>minesweeper.py\<close>. A Python \<^verbatim>\<open>set\<close> of cells is a finite set
  (\<open>cell fset\<close>), a Python \<^verbatim>\<open>int\<close> is an \<open>int\<close>, the list
  \<^verbatim>\<open>self.knowledge\<close> is a list of records. Every \<^verbatim>\<open>Sentence\<close> object in
  the list is created by the constructor, which copies its cell set, and is held at one
  position only, so in-place mutation of a sentence is an update of the list at that
  position.
\<close>

type_synonym cell = "int \<times> int"

subsection \<open>Class Sentence\<close>

record Sentence =
  cells :: "cell fset"
  count :: int

text \<open>\<^verbatim>\<open>__eq__\<close> compares cells and count: it is the equality of the record.\<close>

definition known_mines :: "Sentence \<Rightarrow> cell fset" where
  "known_mines s = (if int (fcard (cells s)) = count s then cells s else {||})"

definition known_safes :: "Sentence \<Rightarrow> cell fset" where
  "known_safes s = (if count s = 0 then cells s else {||})"

text \<open>
  \<^verbatim>\<open>Sentence.mark_mine\<close>: the removal is guarded by the membership test, so
  \<^verbatim>\<open>set.remove\<close> cannot raise there.
\<close>

definition Sentence_mark_mine :: "Sentence \<Rightarrow> cell \<Rightarrow> Sentence" where
  "Sentence_mark_mine s c =
     (if c |\<in>| cells s then \<lparr>cells = cells s |-| {|c|}, count = count s - 1\<rparr> else s)"

text \<open>
  \<^verbatim>\<open>set.remove\<close> raises \<^verbatim>\<open>KeyError\<close> on a value that is not a member;
  \<^verbatim>\<open>Sentence.mark_safe\<close> calls it inside \<^verbatim>\<open>try\<close> and swallows the exception.
\<close>

datatype py_error = KeyError

definition set_remove :: "cell fset \<Rightarrow> cell \<Rightarrow> py_error + cell fset" where
  "set_remove S c = (if c |\<in>| S then Inr (S |-| {|c|}) else Inl KeyError)"

definition Sentence_mark_safe :: "Sentence \<Rightarrow> cell \<Rightarrow> Sentence" where
  "Sentence_mark_safe s c =
     (case set_remove (cells s) c of
        Inr S \<Rightarrow> s\<lparr>cells := S\<rparr>
      | Inl e \<Rightarrow> s)"

subsection \<open>Class MinesweeperAI\<close>

record MinesweeperAI =
  height :: int
  width :: int
  moves_made :: "cell fset"
  mines :: "cell fset"
  safes :: "cell fset"
  knowledge :: "Sentence list"

definition init :: "int \<Rightarrow> int \<Rightarrow> MinesweeperAI" where
  "init h w = \<lparr>height = h, width = w, moves_made = {||}, mines = {||}, safes = {||},
     knowledge = []\<rparr>"

definition mark_mine :: "cell \<Rightarrow> MinesweeperAI \<Rightarrow> MinesweeperAI" where
  "mark_mine c ai =
     ai\<lparr>mines := finsert c (mines ai),
        knowledge := map (\<lambda>s. Sentence_mark_mine s c) (knowledge ai)\<rparr>"

definition mark_safe :: "cell \<Rightarrow> MinesweeperAI \<Rightarrow> MinesweeperAI" where
  "mark_safe c ai =
     ai\<lparr>safes := finsert c (safes ai),
        knowledge := map (\<lambda>s. Sentence_mark_safe s c) (knowledge ai)\<rparr>"

definition is_cell_valid :: "MinesweeperAI \<Rightarrow> cell \<Rightarrow> bool" where
  "is_cell_valid ai c =
     (case c of (x, y) \<Rightarrow>
        if x < 0 \<or> x \<ge> height ai \<or> y < 0 \<or> y \<ge> width ai then False else True)"

subsubsection \<open>add_knowledge: the new sentence\<close>

text \<open>
  The two nested loops over \<^verbatim>\<open>range(-1, 2)\<close> visit the nine offsets in this order;
  the offset \<open>(0, 0)\<close>, the revealed cell itself, is visited like the others.
\<close>

definition offsets :: "(int \<times> int) list" where
  "offsets = concat (map (\<lambda>i. map (\<lambda>j. (i, j)) [-1, 0, 1]) [-1, 0, 1])"

definition neighbour_step ::
  "MinesweeperAI \<Rightarrow> cell \<Rightarrow> int \<times> int \<Rightarrow> cell fset \<times> int \<Rightarrow> cell fset \<times> int" where
  "neighbour_step ai cell off acc =
     (case (cell, off, acc) of ((x, y), (i, j), (cs, n)) \<Rightarrow>
        if is_cell_valid ai (x + i, y + j) then
          if (x + i, y + j) |\<in>| mines ai then (cs, n - 1)
          else if (x + i, y + j) |\<notin>| moves_made ai then (finsert (x + i, y + j) cs, n)
          else (cs, n)
        else (cs, n))"

definition new_sentence :: "MinesweeperAI \<Rightarrow> cell \<Rightarrow> int \<Rightarrow> Sentence" where
  "new_sentence ai cell n =
     (case fold (neighbour_step ai cell) offsets ({||}, n) of
        (cs, n') \<Rightarrow> \<lparr>cells = cs, count = n'\<rparr>)"

text \<open>Lines 203 to 219: record the move, mark the cell safe, append the new sentence.\<close>

definition ingest :: "cell \<Rightarrow> int \<Rightarrow> MinesweeperAI \<Rightarrow> MinesweeperAI" where
  "ingest cell n ai =
     (let ai1 = ai\<lparr>moves_made := finsert cell (moves_made ai)\<rparr>;
          ai2 = mark_safe cell ai1
      in ai2\<lparr>knowledge := knowledge ai2 @ [new_sentence ai2 cell n]\<rparr>)"

subsubsection \<open>add_knowledge: the closure scan\<close>

text \<open>
  A \<^verbatim>\<open>for\<close> loop over a Python set visits its members once each, in an order the
  language does not fix; the model visits them in ascending order. Lemmas
  \<open>mark_mines_order\<close> and \<open>mark_safes_order\<close> below show that the order does not
  matter for the state reached.
\<close>

definition mark_mines :: "cell fset \<Rightarrow> MinesweeperAI \<Rightarrow> MinesweeperAI" where
  "mark_mines S ai = fold mark_mine (sorted_list_of_fset S) ai"

definition mark_safes :: "cell fset \<Rightarrow> MinesweeperAI \<Rightarrow> MinesweeperAI" where
  "mark_safes S ai = fold mark_safe (sorted_list_of_fset S) ai"

text \<open>
  One iteration of the scan, on the sentence at position \<open>i\<close>: \<^verbatim>\<open>known_safes\<close> is
  read after the mines have been marked, from the sentence as it is then.
\<close>

definition closure_step :: "MinesweeperAI \<Rightarrow> nat \<Rightarrow> MinesweeperAI" where
  "closure_step ai i =
     (let ai1 = mark_mines (known_mines (knowledge ai ! i)) ai
      in mark_safes (known_safes (knowledge ai1 ! i)) ai1)"

text \<open>
  The scan visits the positions of the list in order, once; marking never changes the
  length of the list.
\<close>

definition closure_pass :: "MinesweeperAI \<Rightarrow> MinesweeperAI" where
  "closure_pass ai = foldl closure_step ai [0..<length (knowledge ai)]"

subsubsection \<open>add_knowledge: removing empty and duplicate sentences\<close>

definition del :: "'a list \<Rightarrow> nat \<Rightarrow> 'a list" where
  "del xs i = take i xs @ drop (Suc i) xs"

text \<open>
  The inner \<^verbatim>\<open>while j < length\<close> loop, for a fixed \<open>i\<close>; it returns the list and
  the local variable \<^verbatim>\<open>length\<close>.
\<close>

function prune_inner :: "Sentence list \<Rightarrow> nat \<Rightarrow> nat \<Rightarrow> nat \<Rightarrow> Sentence list \<times> nat" where
  "prune_inner kn len i j =
     (if j < len then
        if i \<noteq> j \<and> cells (kn ! i) = cells (kn ! j) then prune_inner (del kn j) (len - 1) i j
        else prune_inner kn len i (j + 1)
      else (kn, len))"
  by pat_completeness auto
termination
  by (relation "measure (\<lambda>(kn, len, i, j). len - j)") auto

declare prune_inner.simps [simp del]

lemma prune_inner_len: "snd (prune_inner kn len i j) \<le> len"
proof (induction kn len i j rule: prune_inner.induct)
  case (1 kn len i j)
  show ?case
  proof (cases "j < len")
    case True
    show ?thesis
    proof (cases "i \<noteq> j \<and> cells (kn ! i) = cells (kn ! j)")
      case dup: True
      with \<open>j < len\<close> "1.IH"(1)
      have "snd (prune_inner (del kn j) (len - 1) i j) \<le> len - 1"
        by simp
      with dup \<open>j < len\<close> show ?thesis
        by (subst prune_inner.simps) simp
    next
      case nodup: False
      with \<open>j < len\<close> "1.IH"(2) have "snd (prune_inner kn len i (j + 1)) \<le> len"
        by simp
      with nodup \<open>j < len\<close> show ?thesis
        by (subst prune_inner.simps) auto
    qed
  next
    case False
    then show ?thesis
      by (subst prune_inner.simps) simp
  qed
qed

function prune_outer :: "Sentence list \<Rightarrow> nat \<Rightarrow> nat \<Rightarrow> Sentence list" where
  "prune_outer kn len i =
     (if i < len then
        if fcard (cells (kn ! i)) = 0 then prune_outer (del kn i) (len - 1) i
        else (case prune_inner kn len i i of (kn', len') \<Rightarrow> prune_outer kn' len' (i + 1))
      else kn)"
  by pat_completeness auto
termination
  apply (relation "measure (\<lambda>(kn, len, i). len - i)")
  subgoal by simp
  subgoal by simp
  subgoal for kn len i kn' len'
    using prune_inner_len [of kn len i i] by (cases "prune_inner kn len i i") auto
  done

declare prune_outer.simps [simp del]

definition prune :: "MinesweeperAI \<Rightarrow> MinesweeperAI" where
  "prune ai = ai\<lparr>knowledge := prune_outer (knowledge ai) (length (knowledge ai)) 0\<rparr>"

subsubsection \<open>add_knowledge: subset inference\<close>

definition infer_pair :: "Sentence \<Rightarrow> Sentence \<Rightarrow> Sentence list" where
  "infer_pair s1 s2 =
     (let s1_len = fcard (cells s1); s2_len = fcard (cells s2) in
      if s2_len = 0 then []
      else if s1_len > s2_len \<and> cells s2 |\<subseteq>| cells s1 then
        [\<lparr>cells = cells s1 |-| cells s2, count = count s1 - count s2\<rparr>]
      else if s2_len > s1_len \<and> cells s1 |\<subseteq>| cells s2 then
        [\<lparr>cells = cells s2 |-| cells s1, count = count s2 - count s1\<rparr>]
      else [])"

definition infer_from :: "Sentence list \<Rightarrow> nat \<Rightarrow> Sentence list" where
  "infer_from kn i =
     (if fcard (cells (kn ! i)) = 0 then []
      else concat (map (infer_pair (kn ! i)) (drop i kn)))"

definition new_knowledges :: "Sentence list \<Rightarrow> Sentence list" where
  "new_knowledges kn = concat (map (infer_from kn) [0..<length kn])"

definition infer :: "MinesweeperAI \<Rightarrow> MinesweeperAI" where
  "infer ai = ai\<lparr>knowledge := knowledge ai @ new_knowledges (knowledge ai)\<rparr>"

definition add_knowledge :: "cell \<Rightarrow> int \<Rightarrow> MinesweeperAI \<Rightarrow> MinesweeperAI" where
  "add_knowledge cell n ai = infer (prune (closure_pass (ingest cell n ai)))"

subsection \<open>Move queries\<close>

text \<open>
  \<^verbatim>\<open>make_safe_move\<close> returns the first member of \<^verbatim>\<open>self.safes\<close>, in the set's
  iteration order, that is not in \<^verbatim>\<open>self.moves_made\<close>, and falls off the end of the
  function (returning \<^verbatim>\<open>None\<close>) when there is none. The iteration order of a Python
  set is not fixed by the language, so it is an argument of the model: a list that
  enumerates \<^verbatim>\<open>self.safes\<close>. The state is returned beside the move.
\<close>

definition make_safe_move :: "cell list \<Rightarrow> MinesweeperAI \<Rightarrow> cell option \<times> MinesweeperAI" where
  "make_safe_move order ai = (find (\<lambda>c. c |\<notin>| moves_made ai) order, ai)"

text \<open>
  \<^verbatim>\<open>make_random_move\<close> scans the grid row by row and returns the first cell that is
  neither a known mine nor a move made; it falls off the end otherwise.
\<close>

definition grid :: "MinesweeperAI \<Rightarrow> cell list" where
  "grid ai = concat (map (\<lambda>i. map (\<lambda>j. (i, j)) [0..width ai - 1]) [0..height ai - 1])"

definition make_random_move :: "MinesweeperAI \<Rightarrow> cell option \<times> MinesweeperAI" where
  "make_random_move ai =
     (find (\<lambda>c. c |\<notin>| mines ai \<and> c |\<notin>| moves_made ai) (grid ai), ai)"

subsection \<open>Sequences of calls on one engine\<close>

datatype call =
  Mark_mine cell
  | Mark_safe cell
  | Add_knowledge cell int
  | Make_safe_move "cell list"
  | Make_random_move

fun exec :: "call \<Rightarrow> MinesweeperAI \<Rightarrow> MinesweeperAI" where
  "exec (Mark_mine c) ai = mark_mine c ai"
| "exec (Mark_safe c) ai = mark_safe c ai"
| "exec (Add_knowledge c n) ai = add_knowledge c n ai"
| "exec (Make_safe_move order) ai = snd (make_safe_move order ai)"
| "exec Make_random_move ai = snd (make_random_move ai)"

definition run :: "call list \<Rightarrow> MinesweeperAI \<Rightarrow> MinesweeperAI" where
  "run cs ai = fold exec cs ai"

section \<open>Marking\<close>

lemma mark_mine_fields [simp]:
  "mines (mark_mine c ai) = finsert c (mines ai)"
  "safes (mark_mine c ai) = safes ai"
  "moves_made (mark_mine c ai) = moves_made ai"
  "height (mark_mine c ai) = height ai"
  "width (mark_mine c ai) = width ai"
  "knowledge (mark_mine c ai) = map (\<lambda>s. Sentence_mark_mine s c) (knowledge ai)"
  by (simp_all add: mark_mine_def)

lemma mark_safe_fields [simp]:
  "safes (mark_safe c ai) = finsert c (safes ai)"
  "mines (mark_safe c ai) = mines ai"
  "moves_made (mark_safe c ai) = moves_made ai"
  "height (mark_safe c ai) = height ai"
  "width (mark_safe c ai) = width ai"
  "knowledge (mark_safe c ai) = map (\<lambda>s. Sentence_mark_safe s c) (knowledge ai)"
  by (simp_all add: mark_safe_def)

lemma Sentence_mark_safe_eq:
  "Sentence_mark_safe s c = s\<lparr>cells := cells s |-| {|c|}\<rparr>"
  by (simp add: Sentence_mark_safe_def set_remove_def)

text \<open>Marking the members of a list, in the order of the list, in closed form.\<close>

lemma Sentence_mark_mines_fold:
  "fold (\<lambda>c s. Sentence_mark_mine s c) xs s =
     \<lparr>cells = cells s |-| fset_of_list xs,
      count = count s - int (fcard (cells s |\<inter>| fset_of_list xs))\<rparr>"
proof (induction xs arbitrary: s)
  case Nil
  then show ?case by simp
next
  case (Cons c xs)
  let ?s' = "Sentence_mark_mine s c"
  have step: "fold (\<lambda>c s. Sentence_mark_mine s c) (c # xs) s =
      \<lparr>cells = cells ?s' |-| fset_of_list xs,
       count = count ?s' - int (fcard (cells ?s' |\<inter>| fset_of_list xs))\<rparr>"
    using Cons.IH [of ?s'] by simp
  show ?case
  proof (cases "c |\<in>| cells s")
    case True
    have "cells s |\<inter>| finsert c (fset_of_list xs) =
          finsert c ((cells s |-| {|c|}) |\<inter>| fset_of_list xs)"
      using True by auto
    then have "fcard (cells s |\<inter>| finsert c (fset_of_list xs)) =
          Suc (fcard ((cells s |-| {|c|}) |\<inter>| fset_of_list xs))"
      by (simp add: fcard_finsert_disjoint)
    moreover have "cells s |-| {|c|} |-| fset_of_list xs = cells s |-| finsert c (fset_of_list xs)"
      by auto
    moreover have "?s' = \<lparr>cells = cells s |-| {|c|}, count = count s - 1\<rparr>"
      using True by (simp add: Sentence_mark_mine_def)
    ultimately show ?thesis
      unfolding step by simp
  next
    case False
    then have "cells s |\<inter>| finsert c (fset_of_list xs) = cells s |\<inter>| fset_of_list xs"
      and "cells s |-| finsert c (fset_of_list xs) = cells s |-| fset_of_list xs"
      by auto
    moreover have "?s' = s"
      using False by (simp add: Sentence_mark_mine_def)
    ultimately show ?thesis
      unfolding step by simp
  qed
qed

lemma Sentence_mark_safes_fold:
  "fold (\<lambda>c s. Sentence_mark_safe s c) xs s = s\<lparr>cells := cells s |-| fset_of_list xs\<rparr>"
proof (induction xs arbitrary: s)
  case Nil
  then show ?case by simp
next
  case (Cons c xs)
  let ?s' = "Sentence_mark_safe s c"
  have "fold (\<lambda>c s. Sentence_mark_safe s c) (c # xs) s =
      ?s'\<lparr>cells := cells ?s' |-| fset_of_list xs\<rparr>"
    using Cons.IH [of ?s'] by simp
  moreover have "cells s |-| {|c|} |-| fset_of_list xs = cells s |-| finsert c (fset_of_list xs)"
    by auto
  ultimately show ?case
    by (simp add: Sentence_mark_safe_eq)
qed

lemma fold_mark_mine:
  "fold mark_mine xs ai =
     ai\<lparr>mines := fset_of_list xs |\<union>| mines ai,
        knowledge := map (fold (\<lambda>c s. Sentence_mark_mine s c) xs) (knowledge ai)\<rparr>"
proof (induction xs arbitrary: ai)
  case Nil
  then show ?case by simp
next
  case (Cons c xs)
  have "fold mark_mine (c # xs) ai = fold mark_mine xs (mark_mine c ai)"
    by simp
  also have "\<dots> = (mark_mine c ai)\<lparr>mines := fset_of_list xs |\<union>| mines (mark_mine c ai),
        knowledge := map (fold (\<lambda>c s. Sentence_mark_mine s c) xs)
          (knowledge (mark_mine c ai))\<rparr>"
    by (rule Cons.IH)
  also have "\<dots> = ai\<lparr>mines := fset_of_list (c # xs) |\<union>| mines ai,
        knowledge := map (fold (\<lambda>c s. Sentence_mark_mine s c) (c # xs)) (knowledge ai)\<rparr>"
    by (simp add: mark_mine_def)
  finally show ?case .
qed

lemma fold_mark_safe:
  "fold mark_safe xs ai =
     ai\<lparr>safes := fset_of_list xs |\<union>| safes ai,
        knowledge := map (fold (\<lambda>c s. Sentence_mark_safe s c) xs) (knowledge ai)\<rparr>"
proof (induction xs arbitrary: ai)
  case Nil
  then show ?case by simp
next
  case (Cons c xs)
  have "fold mark_safe (c # xs) ai = fold mark_safe xs (mark_safe c ai)"
    by simp
  also have "\<dots> = (mark_safe c ai)\<lparr>safes := fset_of_list xs |\<union>| safes (mark_safe c ai),
        knowledge := map (fold (\<lambda>c s. Sentence_mark_safe s c) xs)
          (knowledge (mark_safe c ai))\<rparr>"
    by (rule Cons.IH)
  also have "\<dots> = ai\<lparr>safes := fset_of_list (c # xs) |\<union>| safes ai,
        knowledge := map (fold (\<lambda>c s. Sentence_mark_safe s c) (c # xs)) (knowledge ai)\<rparr>"
    by (simp add: mark_safe_def)
  finally show ?case .
qed

text \<open>
  A set of cells marked at once: what the two inner loops of the closure scan do to a
  sentence.
\<close>

definition Sentence_minus_mines :: "cell fset \<Rightarrow> Sentence \<Rightarrow> Sentence" where
  "Sentence_minus_mines S s =
     \<lparr>cells = cells s |-| S, count = count s - int (fcard (cells s |\<inter>| S))\<rparr>"

definition Sentence_minus_safes :: "cell fset \<Rightarrow> Sentence \<Rightarrow> Sentence" where
  "Sentence_minus_safes S s = s\<lparr>cells := cells s |-| S\<rparr>"

lemma mark_mines_order:
  "fset_of_list xs = S \<Longrightarrow> fold mark_mine xs ai = mark_mines S ai"
  by (simp add: mark_mines_def fold_mark_mine Sentence_mark_mines_fold)

lemma mark_safes_order:
  "fset_of_list xs = S \<Longrightarrow> fold mark_safe xs ai = mark_safes S ai"
  by (simp add: mark_safes_def fold_mark_safe Sentence_mark_safes_fold)

lemma mark_mines_eq:
  "mark_mines S ai =
     ai\<lparr>mines := S |\<union>| mines ai, knowledge := map (Sentence_minus_mines S) (knowledge ai)\<rparr>"
  by (simp add: mark_mines_def fold_mark_mine Sentence_mark_mines_fold Sentence_minus_mines_def
      cong: map_cong)

lemma mark_safes_eq:
  "mark_safes S ai =
     ai\<lparr>safes := S |\<union>| safes ai, knowledge := map (Sentence_minus_safes S) (knowledge ai)\<rparr>"
  by (simp add: mark_safes_def fold_mark_safe Sentence_mark_safes_fold Sentence_minus_safes_def
      cong: map_cong)

section \<open>What each step of add_knowledge does to the three sets\<close>

lemma closure_step_fields [simp]:
  "moves_made (closure_step ai i) = moves_made ai"
  "height (closure_step ai i) = height ai"
  "width (closure_step ai i) = width ai"
  "length (knowledge (closure_step ai i)) = length (knowledge ai)"
  by (simp_all add: closure_step_def Let_def mark_mines_eq mark_safes_eq)

lemma closure_step_mines:
  "mines (closure_step ai i) = known_mines (knowledge ai ! i) |\<union>| mines ai"
  by (simp add: closure_step_def Let_def mark_mines_eq mark_safes_eq)

lemma closure_step_mono:
  "mines ai |\<subseteq>| mines (closure_step ai i)"
  "safes ai |\<subseteq>| safes (closure_step ai i)"
  by (auto simp add: closure_step_def Let_def mark_mines_eq mark_safes_eq)

lemma closure_scan_fields [simp]:
  "moves_made (foldl closure_step ai is) = moves_made ai"
  "height (foldl closure_step ai is) = height ai"
  "width (foldl closure_step ai is) = width ai"
  "length (knowledge (foldl closure_step ai is)) = length (knowledge ai)"
  by (induction "is" arbitrary: ai) simp_all

lemma closure_scan_mono:
  "mines ai |\<subseteq>| mines (foldl closure_step ai is)"
  "safes ai |\<subseteq>| safes (foldl closure_step ai is)"
proof (induction "is" arbitrary: ai)
  case Nil
  { case 1 show ?case by simp }
  { case 2 show ?case by simp }
next
  case (Cons i "is")
  { case 1 show ?case
      using Cons.IH(1) [of "closure_step ai i"] closure_step_mono(1) [of ai i] by auto }
  { case 2 show ?case
      using Cons.IH(2) [of "closure_step ai i"] closure_step_mono(2) [of ai i] by auto }
qed

lemma closure_pass_fields [simp]:
  "moves_made (closure_pass ai) = moves_made ai"
  "height (closure_pass ai) = height ai"
  "width (closure_pass ai) = width ai"
  "length (knowledge (closure_pass ai)) = length (knowledge ai)"
  by (simp_all add: closure_pass_def)

lemma closure_pass_mono:
  "mines ai |\<subseteq>| mines (closure_pass ai)"
  "safes ai |\<subseteq>| safes (closure_pass ai)"
  by (simp_all add: closure_pass_def closure_scan_mono)

lemma prune_fields [simp]:
  "moves_made (prune ai) = moves_made ai"
  "mines (prune ai) = mines ai"
  "safes (prune ai) = safes ai"
  "height (prune ai) = height ai"
  "width (prune ai) = width ai"
  by (simp_all add: prune_def)

lemma infer_fields [simp]:
  "moves_made (infer ai) = moves_made ai"
  "mines (infer ai) = mines ai"
  "safes (infer ai) = safes ai"
  "height (infer ai) = height ai"
  "width (infer ai) = width ai"
  "knowledge (infer ai) = knowledge ai @ new_knowledges (knowledge ai)"
  by (simp_all add: infer_def)

lemma ingest_fields [simp]:
  "moves_made (ingest c n ai) = finsert c (moves_made ai)"
  "mines (ingest c n ai) = mines ai"
  "safes (ingest c n ai) = finsert c (safes ai)"
  "height (ingest c n ai) = height ai"
  "width (ingest c n ai) = width ai"
  by (simp_all add: ingest_def Let_def)

lemma add_knowledge_fields [simp]:
  "moves_made (add_knowledge c n ai) = finsert c (moves_made ai)"
  "height (add_knowledge c n ai) = height ai"
  "width (add_knowledge c n ai) = width ai"
  by (simp_all add: add_knowledge_def)

lemma add_knowledge_mono:
  "mines ai |\<subseteq>| mines (add_knowledge c n ai)"
  "finsert c (safes ai) |\<subseteq>| safes (add_knowledge c n ai)"
  using closure_pass_mono [of "ingest c n ai"] by (simp_all add: add_knowledge_def)

lemma exec_mono:
  "moves_made ai |\<subseteq>| moves_made (exec call ai)"
  "mines ai |\<subseteq>| mines (exec call ai)"
  "safes ai |\<subseteq>| safes (exec call ai)"
  using add_knowledge_mono
  by (cases call; auto simp: make_safe_move_def make_random_move_def)+

section \<open>The sentence built from a revealed cell\<close>

text \<open>
  \<open>chebyshev\<close> is the distance of the specification (the larger of the row and column
  differences); \<open>block\<close> lists the nine cells the two loops visit.
\<close>

definition chebyshev :: "cell \<Rightarrow> cell \<Rightarrow> int" where
  "chebyshev a b = max \<bar>fst a - fst b\<bar> \<bar>snd a - snd b\<bar>"

definition block :: "cell \<Rightarrow> cell list" where
  "block cell = map (\<lambda>off. (fst cell + fst off, snd cell + snd off)) offsets"

lemma neighbour_fold:
  "fold (neighbour_step ai cell) offs (cs, n) =
     (cs |\<union>| ffilter (\<lambda>c. is_cell_valid ai c \<and> c |\<notin>| mines ai \<and> c |\<notin>| moves_made ai)
         (fset_of_list (map (\<lambda>off. (fst cell + fst off, snd cell + snd off)) offs)),
      n - int (length (filter (\<lambda>c. is_cell_valid ai c \<and> c |\<in>| mines ai)
         (map (\<lambda>off. (fst cell + fst off, snd cell + snd off)) offs))))"
proof (induction offs arbitrary: cs n)
  case Nil
  then show ?case by auto
next
  case (Cons off offs)
  obtain x y i j where xy: "cell = (x, y)" and ij: "off = (i, j)"
    by (cases cell, cases off) auto
  let ?c = "(x + i, y + j)"
  have step: "neighbour_step ai cell off (cs, n) =
      (if is_cell_valid ai ?c then
         if ?c |\<in>| mines ai then (cs, n - 1)
         else if ?c |\<notin>| moves_made ai then (finsert ?c cs, n)
         else (cs, n)
       else (cs, n))"
    by (simp add: neighbour_step_def xy ij)
  have unfold: "fold (neighbour_step ai cell) (off # offs) (cs, n) =
      fold (neighbour_step ai cell) offs (neighbour_step ai cell off (cs, n))"
    by simp
  have img: "map (\<lambda>off. (fst cell + fst off, snd cell + snd off)) (off # offs) =
      ?c # map (\<lambda>off. (fst cell + fst off, snd cell + snd off)) offs"
    by (simp add: xy ij)
  let ?P = "\<lambda>c. is_cell_valid ai c \<and> c |\<notin>| mines ai \<and> c |\<notin>| moves_made ai"
  have ff: "ffilter ?P (finsert ?c S) = (if ?P ?c then finsert ?c (ffilter ?P S) else ffilter ?P S)"
    for S
    by auto
  consider (invalid) "\<not> is_cell_valid ai ?c"
    | (mine) "is_cell_valid ai ?c" "?c |\<in>| mines ai"
    | (fresh) "is_cell_valid ai ?c" "?c |\<notin>| mines ai" "?c |\<notin>| moves_made ai"
    | (made) "is_cell_valid ai ?c" "?c |\<notin>| mines ai" "?c |\<in>| moves_made ai"
    by blast
  then show ?case
  proof cases
    case invalid
    then show ?thesis
      unfolding unfold img step by (simp add: Cons.IH ff)
  next
    case mine
    then show ?thesis
      unfolding unfold img step by (simp add: Cons.IH ff)
  next
    case fresh
    then show ?thesis
      unfolding unfold img step by (simp add: Cons.IH ff)
  next
    case made
    then show ?thesis
      unfolding unfold img step by (simp add: Cons.IH ff)
  qed
qed

lemma new_sentence_eq:
  "new_sentence ai cell n =
     \<lparr>cells = ffilter (\<lambda>c. is_cell_valid ai c \<and> c |\<notin>| mines ai \<and> c |\<notin>| moves_made ai)
         (fset_of_list (block cell)),
      count = n - int (length (filter (\<lambda>c. is_cell_valid ai c \<and> c |\<in>| mines ai) (block cell)))\<rparr>"
  by (simp add: new_sentence_def neighbour_fold block_def)

lemma block_eq:
  "block (x, y) =
     [(x - 1, y - 1), (x - 1, y), (x - 1, y + 1),
      (x, y - 1), (x, y), (x, y + 1),
      (x + 1, y - 1), (x + 1, y), (x + 1, y + 1)]"
  by (simp add: block_def offsets_def)

lemma block_distinct: "distinct (block cell)"
  by (cases cell) (simp add: block_eq)

lemma block_set: "c \<in> set (block cell) \<longleftrightarrow> chebyshev c cell \<le> 1"
proof -
  obtain x y a b where "cell = (x, y)" "c = (a, b)"
    by (cases cell, cases c) auto
  moreover have "\<bar>a - x\<bar> \<le> 1 \<longleftrightarrow> a = x - 1 \<or> a = x \<or> a = x + 1"
    by arith
  moreover have "\<bar>b - y\<bar> \<le> 1 \<longleftrightarrow> b = y - 1 \<or> b = y \<or> b = y + 1"
    by arith
  ultimately show ?thesis
    by (simp add: block_eq chebyshev_def) blast
qed

lemma chebyshev_self: "chebyshev c cell = 0 \<longleftrightarrow> c = cell"
  by (cases c, cases cell) (auto simp: chebyshev_def)

lemma chebyshev_nonneg: "0 \<le> chebyshev c cell"
  by (simp add: chebyshev_def)

lemma block_mines_count:
  "length (filter (\<lambda>c. is_cell_valid ai c \<and> c |\<in>| M) (block cell)) =
     fcard (ffilter (\<lambda>c. chebyshev c cell \<le> 1 \<and> is_cell_valid ai c) M)"
proof -
  have "distinct (filter (\<lambda>c. is_cell_valid ai c \<and> c |\<in>| M) (block cell))"
    by (simp add: block_distinct)
  then have "length (filter (\<lambda>c. is_cell_valid ai c \<and> c |\<in>| M) (block cell)) =
      card (set (filter (\<lambda>c. is_cell_valid ai c \<and> c |\<in>| M) (block cell)))"
    by (rule distinct_card [symmetric])
  also have "set (filter (\<lambda>c. is_cell_valid ai c \<and> c |\<in>| M) (block cell)) =
      fset (ffilter (\<lambda>c. chebyshev c cell \<le> 1 \<and> is_cell_valid ai c) M)"
    by (auto simp: block_set)
  finally show ?thesis
    by (simp add: fcard.rep_eq)
qed

section \<open>The pruning loops as a function on lists\<close>

text \<open>
  The two nested \<^verbatim>\<open>while\<close> loops drop every sentence with no cells and, for every
  sentence kept, every later sentence with the same cells.
\<close>

fun prune_list :: "Sentence list \<Rightarrow> Sentence list" where
  "prune_list [] = []"
| "prune_list (s # ss) =
     (if cells s = {||} then prune_list ss
      else s # prune_list (filter (\<lambda>t. cells t \<noteq> cells s) ss))"

lemma del_take: "j \<le> length kn \<Longrightarrow> take j (del kn j) = take j kn"
  by (simp add: del_def)

lemma del_drop: "drop j (del kn j) = drop (Suc j) kn"
  by (simp add: del_def min_def drop_take)

lemma del_length: "j < length kn \<Longrightarrow> length (del kn j) = length kn - 1"
  by (simp add: del_def)

lemma del_nth: "i < j \<Longrightarrow> j < length kn \<Longrightarrow> del kn j ! i = kn ! i"
  by (simp add: del_def nth_append)

lemma prune_inner_eq:
  "len = length kn \<Longrightarrow> i < j \<Longrightarrow> j \<le> len \<Longrightarrow>
   prune_inner kn len i j =
     (take j kn @ filter (\<lambda>t. cells t \<noteq> cells (kn ! i)) (drop j kn),
      j + length (filter (\<lambda>t. cells t \<noteq> cells (kn ! i)) (drop j kn)))"
proof (induction kn len i j rule: prune_inner.induct)
  case (1 kn len i j)
  show ?case
  proof (cases "j < len")
    case False
    with 1 show ?thesis
      by (subst prune_inner.simps) simp
  next
    case True
    then have dj: "drop j kn = kn ! j # drop (Suc j) kn"
      using "1.prems" by (simp add: Cons_nth_drop_Suc)
    show ?thesis
    proof (cases "cells (kn ! i) = cells (kn ! j)")
      case same: True
      have "prune_inner (del kn j) (len - 1) i j =
          (take j (del kn j) @ filter (\<lambda>t. cells t \<noteq> cells (del kn j ! i)) (drop j (del kn j)),
           j + length (filter (\<lambda>t. cells t \<noteq> cells (del kn j ! i)) (drop j (del kn j))))"
        using True same "1.prems" by (intro "1.IH"(1)) (auto simp: del_length)
      then have "prune_inner (del kn j) (len - 1) i j =
          (take j kn @ filter (\<lambda>t. cells t \<noteq> cells (kn ! i)) (drop (Suc j) kn),
           j + length (filter (\<lambda>t. cells t \<noteq> cells (kn ! i)) (drop (Suc j) kn)))"
        using True "1.prems" by (simp add: del_take del_drop del_nth)
      moreover have "prune_inner kn len i j = prune_inner (del kn j) (len - 1) i j"
        using True same "1.prems" by (subst prune_inner.simps) simp
      ultimately show ?thesis
        using same by (simp add: dj)
    next
      case differ: False
      have "prune_inner kn len i (j + 1) =
          (take (j + 1) kn @ filter (\<lambda>t. cells t \<noteq> cells (kn ! i)) (drop (j + 1) kn),
           j + 1 + length (filter (\<lambda>t. cells t \<noteq> cells (kn ! i)) (drop (j + 1) kn)))"
        using True differ "1.prems" by (intro "1.IH"(2)) auto
      moreover have "prune_inner kn len i j = prune_inner kn len i (j + 1)"
        using True differ by (subst prune_inner.simps) simp
      moreover have "take (Suc j) kn = take j kn @ [kn ! j]"
        using True "1.prems" by (simp add: take_Suc_conv_app_nth)
      ultimately show ?thesis
        using differ by (simp add: dj)
    qed
  qed
qed

lemma prune_inner_start:
  assumes "len = length kn" "i < len"
  shows "prune_inner kn len i i =
     (take (Suc i) kn @ filter (\<lambda>t. cells t \<noteq> cells (kn ! i)) (drop (Suc i) kn),
      Suc i + length (filter (\<lambda>t. cells t \<noteq> cells (kn ! i)) (drop (Suc i) kn)))"
proof -
  have "prune_inner kn len i i = prune_inner kn len i (i + 1)"
    using assms by (subst prune_inner.simps) simp
  then show ?thesis
    using prune_inner_eq [of len kn i "i + 1"] assms by simp
qed

lemma prune_outer_eq:
  "len = length kn \<Longrightarrow> i \<le> len \<Longrightarrow>
   prune_outer kn len i = take i kn @ prune_list (drop i kn)"
proof (induction kn len i rule: prune_outer.induct)
  case (1 kn len i)
  show ?case
  proof (cases "i < len")
    case False
    with 1 show ?thesis
      by (subst prune_outer.simps) simp
  next
    case True
    then have di: "drop i kn = kn ! i # drop (Suc i) kn"
      using "1.prems" by (simp add: Cons_nth_drop_Suc)
    show ?thesis
    proof (cases "fcard (cells (kn ! i)) = 0")
      case empty: True
      have "prune_outer (del kn i) (len - 1) i =
          take i (del kn i) @ prune_list (drop i (del kn i))"
        using True empty "1.prems" by (intro "1.IH"(1)) (auto simp: del_length)
      moreover have "prune_outer kn len i = prune_outer (del kn i) (len - 1) i"
        using True empty by (subst prune_outer.simps) simp
      ultimately show ?thesis
        using True empty "1.prems" by (simp add: del_take del_drop di)
    next
      case nonempty: False
      let ?f = "filter (\<lambda>t. cells t \<noteq> cells (kn ! i)) (drop (Suc i) kn)"
      let ?kn' = "take (Suc i) kn @ ?f"
      let ?len' = "Suc i + length ?f"
      have inner: "prune_inner kn len i i = (?kn', ?len')"
        using prune_inner_start [of len kn i] True "1.prems" by simp
      have len': "?len' = length ?kn'"
        using True "1.prems" by simp
      have "prune_outer ?kn' ?len' (i + 1) = take (i + 1) ?kn' @ prune_list (drop (i + 1) ?kn')"
        using True nonempty inner len' by (intro "1.IH"(2)) auto
      moreover have "prune_outer kn len i = prune_outer ?kn' ?len' (i + 1)"
        using True nonempty inner by (subst prune_outer.simps) simp
      moreover have "take (Suc i) kn = take i kn @ [kn ! i]"
        using True "1.prems" by (simp add: take_Suc_conv_app_nth)
      ultimately show ?thesis
        using True nonempty "1.prems" by (simp add: di)
    qed
  qed
qed

lemma prune_eq: "prune ai = ai\<lparr>knowledge := prune_list (knowledge ai)\<rparr>"
  by (simp add: prune_def prune_outer_eq)

lemma prune_list_subset: "set (prune_list kn) \<subseteq> set kn"
  by (induction kn rule: prune_list.induct) auto

lemma prune_list_nonempty: "s \<in> set (prune_list kn) \<Longrightarrow> cells s \<noteq> {||}"
  by (induction kn rule: prune_list.induct) (auto split: if_splits)

lemma prune_list_distinct: "distinct (map cells (prune_list kn))"
proof (induction kn rule: prune_list.induct)
  case 1
  then show ?case by simp
next
  case (2 s ss)
  have "cells s \<notin> cells ` set (prune_list (filter (\<lambda>t. cells t \<noteq> cells s) ss))"
    using prune_list_subset [of "filter (\<lambda>t. cells t \<noteq> cells s) ss"] by auto
  with 2 show ?case by simp
qed

lemma init_fields [simp]:
  "height (init h w) = h"
  "width (init h w) = w"
  "moves_made (init h w) = {||}"
  "mines (init h w) = {||}"
  "safes (init h w) = {||}"
  "knowledge (init h w) = []"
  by (simp_all add: init_def)

lemma is_cell_valid_cong:
  "height ai' = height ai \<Longrightarrow> width ai' = width ai \<Longrightarrow> is_cell_valid ai' = is_cell_valid ai"
  by (auto simp: is_cell_valid_def fun_eq_iff)

lemma ingest_knowledge:
  "knowledge (ingest cell n ai) =
     map (\<lambda>s. Sentence_mark_safe s cell) (knowledge ai) @
     [\<lparr>cells = ffilter (\<lambda>c. is_cell_valid ai c \<and> c |\<notin>| mines ai \<and> c |\<notin>| finsert cell (moves_made ai))
         (fset_of_list (block cell)),
       count = n - int (length (filter (\<lambda>c. is_cell_valid ai c \<and> c |\<in>| mines ai) (block cell)))\<rparr>]"
proof -
  let ?ai2 = "mark_safe cell (ai\<lparr>moves_made := finsert cell (moves_made ai)\<rparr>)"
  have "is_cell_valid ?ai2 = is_cell_valid ai"
    by (rule is_cell_valid_cong) simp_all
  then show ?thesis
    by (simp add: ingest_def Let_def new_sentence_eq)
qed

lemma chebyshev_one: "chebyshev c cell = 1 \<longleftrightarrow> chebyshev c cell \<le> 1 \<and> c \<noteq> cell"
  using chebyshev_self [of c cell] chebyshev_nonneg [of c cell] by arith

section \<open>Evaluating the engine on concrete states\<close>

lemma ffilter_finsert_if:
  "ffilter P (finsert x S) = (if P x then finsert x (ffilter P S) else ffilter P S)"
  by auto

lemma ffilter_fempty: "ffilter P {||} = {||}"
  by auto

lemma finsert_eq_iff: "finsert x A = B \<longleftrightarrow> x |\<in>| B \<and> A |\<subseteq>| B \<and> B |\<subseteq>| finsert x A"
  by auto

lemma fempty_eq_finsert: "{||} = finsert x A \<longleftrightarrow> False"
  by auto

lemmas fset_eval =
  ffilter_finsert_if ffilter_fempty finsert_eq_iff fempty_eq_finsert
  finsert_fminus_if finter_finsert_left fcard_finsert_if fcard_fempty

lemma ingest_eq:
  "ingest cell n ai =
     ai\<lparr>moves_made := finsert cell (moves_made ai),
        safes := finsert cell (safes ai),
        knowledge := map (\<lambda>s. Sentence_mark_safe s cell) (knowledge ai) @
          [\<lparr>cells = ffilter
              (\<lambda>c. is_cell_valid ai c \<and> c |\<notin>| mines ai \<and> c |\<notin>| finsert cell (moves_made ai))
              (fset_of_list (block cell)),
            count = n - int (length (filter (\<lambda>c. is_cell_valid ai c \<and> c |\<in>| mines ai)
              (block cell)))\<rparr>]\<rparr>"
proof -
  have "ingest cell n ai =
      ai\<lparr>moves_made := finsert cell (moves_made ai), safes := finsert cell (safes ai),
         knowledge := knowledge (ingest cell n ai)\<rparr>"
    by (simp add: ingest_def Let_def mark_safe_def)
  then show ?thesis
    by (simp add: ingest_knowledge)
qed

lemma closure_step_eq:
  "closure_step ai i =
     (let ai1 = ai\<lparr>mines := known_mines (knowledge ai ! i) |\<union>| mines ai,
                    knowledge := map (Sentence_minus_mines (known_mines (knowledge ai ! i)))
                      (knowledge ai)\<rparr>
      in ai1\<lparr>safes := known_safes (knowledge ai1 ! i) |\<union>| safes ai1,
             knowledge := map (Sentence_minus_safes (known_safes (knowledge ai1 ! i)))
               (knowledge ai1)\<rparr>)"
  by (simp add: closure_step_def Let_def mark_mines_eq mark_safes_eq)

lemmas engine_eval =
  closure_step_eq known_mines_def known_safes_def Sentence_minus_mines_def
  Sentence_minus_safes_def Sentence_mark_safe_eq Sentence_mark_mine_def
  prune_eq infer_def new_knowledges_def infer_from_def infer_pair_def
  is_cell_valid_def block_eq Let_def

section \<open>What subset inference derives\<close>

lemma infer_pair_derives:
  assumes "cells s2 |\<subset>| cells s1" and "cells s2 \<noteq> {||}"
  shows "infer_pair s1 s2 = [\<lparr>cells = cells s1 |-| cells s2, count = count s1 - count s2\<rparr>]"
    and "infer_pair s2 s1 = [\<lparr>cells = cells s1 |-| cells s2, count = count s1 - count s2\<rparr>]"
proof -
  have lt: "fcard (cells s2) < fcard (cells s1)"
    using assms(1) by (rule pfsubset_fcard_mono)
  have sub: "cells s2 |\<subseteq>| cells s1"
    using assms(1) by (rule pfsubset_imp_fsubset)
  have ne: "fcard (cells s2) \<noteq> 0"
    using assms(2) by simp
  show "infer_pair s1 s2 = [\<lparr>cells = cells s1 |-| cells s2, count = count s1 - count s2\<rparr>]"
    using lt sub ne by (simp add: infer_pair_def Let_def)
  have "cells s1 \<noteq> {||}"
    using assms(1) by auto
  then show "infer_pair s2 s1 = [\<lparr>cells = cells s1 |-| cells s2, count = count s1 - count s2\<rparr>]"
    using lt sub by (simp add: infer_pair_def Let_def)
qed

lemma infer_pair_sound:
  assumes "s \<in> set (infer_pair s1 s2)"
  shows "\<exists>big small. {big, small} = {s1, s2} \<and> cells small |\<subset>| cells big \<and>
           s = \<lparr>cells = cells big |-| cells small, count = count big - count small\<rparr>"
proof -
  consider (first) "fcard (cells s1) > fcard (cells s2)" "cells s2 |\<subseteq>| cells s1"
      "s = \<lparr>cells = cells s1 |-| cells s2, count = count s1 - count s2\<rparr>"
    | (second) "fcard (cells s2) > fcard (cells s1)" "cells s1 |\<subseteq>| cells s2"
      "s = \<lparr>cells = cells s2 |-| cells s1, count = count s2 - count s1\<rparr>"
    using assms by (auto simp: infer_pair_def Let_def split: if_splits)
  then show ?thesis
  proof cases
    case first
    then have "cells s2 |\<subset>| cells s1"
      by (simp add: fcard_pfsubset)
    with first(3) show ?thesis by blast
  next
    case second
    then have "cells s1 |\<subset>| cells s2"
      by (simp add: fcard_pfsubset)
    with second(3) show ?thesis by blast
  qed
qed

lemma new_knowledges_derives:
  assumes "i < length kn" and "j < length kn"
    and "cells (kn ! j) |\<subset>| cells (kn ! i)" and "cells (kn ! j) \<noteq> {||}"
  shows "\<lparr>cells = cells (kn ! i) |-| cells (kn ! j), count = count (kn ! i) - count (kn ! j)\<rparr>
           \<in> set (new_knowledges kn)"
proof -
  let ?d = "\<lparr>cells = cells (kn ! i) |-| cells (kn ! j), count = count (kn ! i) - count (kn ! j)\<rparr>"
  have "i \<noteq> j"
    using assms(3) by auto
  have big: "fcard (cells (kn ! i)) \<noteq> 0"
    using assms(3) by auto
  have small: "fcard (cells (kn ! j)) \<noteq> 0"
    using assms(4) by simp
  have later: "kn ! b \<in> set (drop a kn)" if "a < b" "b < length kn" for a b
  proof -
    have "drop a kn ! (b - a) = kn ! b"
      using that by simp
    moreover have "b - a < length (drop a kn)"
      using that by simp
    ultimately show ?thesis
      by (metis nth_mem)
  qed
  show ?thesis
  proof (cases "i < j")
    case True
    have "?d \<in> set (infer_pair (kn ! i) (kn ! j))"
      using infer_pair_derives(1) [OF assms(3,4)] by simp
    with later [OF True assms(2)] have "?d \<in> set (infer_from kn i)"
      using big by (auto simp: infer_from_def)
    with assms(1) show ?thesis
      by (auto simp: new_knowledges_def)
  next
    case False
    with \<open>i \<noteq> j\<close> have "j < i" by simp
    have "?d \<in> set (infer_pair (kn ! j) (kn ! i))"
      using infer_pair_derives(2) [OF assms(3,4)] by simp
    with later [OF \<open>j < i\<close> assms(1)] have "?d \<in> set (infer_from kn j)"
      using small by (auto simp: infer_from_def)
    with assms(2) show ?thesis
      by (auto simp: new_knowledges_def)
  qed
qed

lemma new_knowledges_sound:
  assumes "s \<in> set (new_knowledges kn)"
  shows "\<exists>big \<in> set kn. \<exists>small \<in> set kn. cells small |\<subset>| cells big \<and>
           s = \<lparr>cells = cells big |-| cells small, count = count big - count small\<rparr>"
proof -
  from assms obtain i s2 where i: "i < length kn" and s2: "s2 \<in> set (drop i kn)"
    and s: "s \<in> set (infer_pair (kn ! i) s2)"
    by (auto simp: new_knowledges_def infer_from_def split: if_splits)
  from s2 have "s2 \<in> set kn"
    by (rule in_set_dropD)
  moreover from i have "kn ! i \<in> set kn"
    by simp
  moreover from infer_pair_sound [OF s] obtain big small where
    "{big, small} = {kn ! i, s2}" "cells small |\<subset>| cells big"
    "s = \<lparr>cells = cells big |-| cells small, count = count big - count small\<rparr>"
    by blast
  ultimately show ?thesis
    by (metis doubleton_eq_iff)
qed

lemma new_knowledges_nonempty: "s \<in> set (new_knowledges kn) \<Longrightarrow> cells s \<noteq> {||}"
  using new_knowledges_sound [of s kn] by auto

lemma add_knowledge_knowledge:
  "knowledge (add_knowledge cell n ai) =
     prune_list (knowledge (closure_pass (ingest cell n ai))) @
     new_knowledges (prune_list (knowledge (closure_pass (ingest cell n ai))))"
  by (simp add: add_knowledge_def prune_eq)

lemma prune_knowledge: "knowledge (prune ai) = prune_list (knowledge ai)"
  by (simp add: prune_eq)

subsection \<open>Two states with a negative count\<close>





subsection \<open>Three reveals on an empty 8 by 8 engine\<close>

lemma reveal_1: "add_knowledge (0, 0) 1 (init 8 8) =
  \<lparr>height = 8, width = 8, moves_made = {|(0, 0)|}, mines = {||}, safes = {|(0, 0)|},
   knowledge = [\<lparr>cells = {|(0, 1), (1, 0), (1, 1)|}, count = 1\<rparr>]\<rparr>"
  by (simp add: add_knowledge_def ingest_eq closure_pass_def upt_rec init_def
      fset_eval engine_eval)

lemma reveal_2: "add_knowledge (0, 1) 2
  \<lparr>height = 8, width = 8, moves_made = {|(0, 0)|}, mines = {||}, safes = {|(0, 0)|},
   knowledge = [\<lparr>cells = {|(0, 1), (1, 0), (1, 1)|}, count = 1\<rparr>]\<rparr> =
  \<lparr>height = 8, width = 8, moves_made = {|(0, 0), (0, 1)|}, mines = {||},
   safes = {|(0, 0), (0, 1)|},
   knowledge = [\<lparr>cells = {|(1, 0), (1, 1)|}, count = 1\<rparr>,
                \<lparr>cells = {|(0, 2), (1, 0), (1, 1), (1, 2)|}, count = 2\<rparr>,
                \<lparr>cells = {|(0, 2), (1, 2)|}, count = 1\<rparr>]\<rparr>"
  by (simp add: add_knowledge_def ingest_eq closure_pass_def upt_rec
      fset_eval engine_eval)

lemma reveal_3: "add_knowledge (7, 7) 1
  \<lparr>height = 8, width = 8, moves_made = {|(0, 0), (0, 1)|}, mines = {||},
   safes = {|(0, 0), (0, 1)|},
   knowledge = [\<lparr>cells = {|(1, 0), (1, 1)|}, count = 1\<rparr>,
                \<lparr>cells = {|(0, 2), (1, 0), (1, 1), (1, 2)|}, count = 2\<rparr>,
                \<lparr>cells = {|(0, 2), (1, 2)|}, count = 1\<rparr>]\<rparr> =
  \<lparr>height = 8, width = 8, moves_made = {|(0, 0), (0, 1), (7, 7)|}, mines = {||},
   safes = {|(0, 0), (0, 1), (7, 7)|},
   knowledge = [\<lparr>cells = {|(1, 0), (1, 1)|}, count = 1\<rparr>,
                \<lparr>cells = {|(0, 2), (1, 0), (1, 1), (1, 2)|}, count = 2\<rparr>,
                \<lparr>cells = {|(0, 2), (1, 2)|}, count = 1\<rparr>,
                \<lparr>cells = {|(6, 6), (6, 7), (7, 6)|}, count = 1\<rparr>,
                \<lparr>cells = {|(0, 2), (1, 2)|}, count = 1\<rparr>,
                \<lparr>cells = {|(1, 0), (1, 1)|}, count = 1\<rparr>]\<rparr>"
  by (simp add: add_knowledge_def ingest_eq closure_pass_def upt_rec
      fset_eval engine_eval)

subsection \<open>The two sentences of the subset example\<close>

lemma subset_example_pruned:
  "knowledge (prune (closure_pass (ingest (7, 7) 0
     ((init 8 8)\<lparr>knowledge := [\<lparr>cells = {|(0, 0), (0, 1), (0, 2)|}, count = 1\<rparr>,
                                  \<lparr>cells = {|(0, 0), (0, 1)|}, count = 1\<rparr>]\<rparr>)))) =
     [\<lparr>cells = {|(0, 0), (0, 1), (0, 2)|}, count = 1\<rparr>,
      \<lparr>cells = {|(0, 0), (0, 1)|}, count = 1\<rparr>]"
  by (simp add: ingest_eq closure_pass_def upt_rec init_def fset_eval engine_eval)

lemma subset_example_1:
  "add_knowledge (7, 7) 0
     ((init 8 8)\<lparr>knowledge := [\<lparr>cells = {|(0, 0), (0, 1), (0, 2)|}, count = 1\<rparr>,
                                  \<lparr>cells = {|(0, 0), (0, 1)|}, count = 1\<rparr>]\<rparr>) =
   \<lparr>height = 8, width = 8, moves_made = {|(7, 7)|}, mines = {||},
    safes = {|(6, 6), (6, 7), (7, 6), (7, 7)|},
    knowledge = [\<lparr>cells = {|(0, 0), (0, 1), (0, 2)|}, count = 1\<rparr>,
                 \<lparr>cells = {|(0, 0), (0, 1)|}, count = 1\<rparr>,
                 \<lparr>cells = {|(0, 2)|}, count = 0\<rparr>]\<rparr>"
  by (simp add: add_knowledge_def ingest_eq closure_pass_def upt_rec init_def
      fset_eval engine_eval)

lemma subset_example_2:
  "add_knowledge (7, 6) 0
   \<lparr>height = 8, width = 8, moves_made = {|(7, 7)|}, mines = {||},
    safes = {|(6, 6), (6, 7), (7, 6), (7, 7)|},
    knowledge = [\<lparr>cells = {|(0, 0), (0, 1), (0, 2)|}, count = 1\<rparr>,
                 \<lparr>cells = {|(0, 0), (0, 1)|}, count = 1\<rparr>,
                 \<lparr>cells = {|(0, 2)|}, count = 0\<rparr>]\<rparr> =
   \<lparr>height = 8, width = 8, moves_made = {|(7, 6), (7, 7)|}, mines = {||},
    safes = {|(0, 2), (6, 5), (6, 6), (6, 7), (7, 5), (7, 6), (7, 7)|},
    knowledge = [\<lparr>cells = {|(0, 0), (0, 1)|}, count = 1\<rparr>]\<rparr>"
  by (simp add: add_knowledge_def ingest_eq closure_pass_def upt_rec
      fset_eval engine_eval)

section \<open>The closure scan, sentence by sentence\<close>

lemma closure_step_marks_mines:
  assumes "count (knowledge ai ! i) = int (fcard (cells (knowledge ai ! i)))"
  shows "cells (knowledge ai ! i) |\<subseteq>| mines (closure_step ai i)"
  using assms by (simp add: closure_step_mines known_mines_def)

lemma closure_step_marks_safes:
  assumes "i < length (knowledge ai)" and "count (knowledge ai ! i) = 0"
  shows "cells (knowledge ai ! i) |\<subseteq>| safes (closure_step ai i)"
proof -
  let ?s = "knowledge ai ! i"
  have "known_mines ?s = {||}"
    using assms(2) by (auto simp: known_mines_def)
  moreover have "Sentence_minus_mines {||} ?s = ?s"
    by (simp add: Sentence_minus_mines_def)
  ultimately show ?thesis
    using assms by (simp add: closure_step_eq Let_def known_safes_def)
qed

lemma closure_pass_split:
  assumes "i < length (knowledge ai)"
  shows "closure_pass ai =
     foldl closure_step (closure_step (foldl closure_step ai [0..<i]) i)
       [Suc i..<length (knowledge ai)]"
proof -
  have "[0..<i + (length (knowledge ai) - i)] = [0..<i] @ [i..<i + (length (knowledge ai) - i)]"
    by (rule upt_add_eq_append) simp
  then have "[0..<length (knowledge ai)] = [0..<i] @ i # [Suc i..<length (knowledge ai)]"
    using assms by (simp add: upt_conv_Cons)
  then show ?thesis
    by (simp add: closure_pass_def)
qed

subsection \<open>A scan that leaves a determined sentence behind\<close>

lemma late_resolution:
  "closure_pass (ingest (2, 0) 0
     \<lparr>height = 8, width = 8, moves_made = {|(0, 0)|}, mines = {||}, safes = {|(0, 0)|},
      knowledge = [\<lparr>cells = {|(0, 1), (1, 0), (1, 1)|}, count = 1\<rparr>]\<rparr>) =
   \<lparr>height = 8, width = 8, moves_made = {|(0, 0), (2, 0)|}, mines = {||},
    safes = {|(0, 0), (1, 0), (1, 1), (2, 0), (2, 1), (3, 0), (3, 1)|},
    knowledge = [\<lparr>cells = {|(0, 1)|}, count = 1\<rparr>, \<lparr>cells = {||}, count = 0\<rparr>]\<rparr>"
  by (simp add: ingest_eq closure_pass_def upt_rec fset_eval engine_eval)

section \<open>No held sentence names a known mine\<close>

definition no_known_mine_held :: "MinesweeperAI \<Rightarrow> bool" where
  "no_known_mine_held ai = list_all (\<lambda>s. cells s |\<inter>| mines ai = {||}) (knowledge ai)"

lemma no_known_mine_heldI:
  assumes "\<And>s c. s \<in> set (knowledge ai) \<Longrightarrow> c |\<in>| cells s \<Longrightarrow> c |\<notin>| mines ai"
  shows "no_known_mine_held ai"
proof -
  have "cells s |\<inter>| mines ai = {||}" if "s \<in> set (knowledge ai)" for s
  proof (rule ccontr)
    assume "cells s |\<inter>| mines ai \<noteq> {||}"
    then obtain c where "c |\<in>| cells s |\<inter>| mines ai"
      using ex_fin_conv [of "cells s |\<inter>| mines ai"] by blast
    then have "c |\<in>| cells s" and "c |\<in>| mines ai"
      by simp_all
    with assms [OF that] show False
      by blast
  qed
  then show ?thesis
    by (simp add: no_known_mine_held_def list_all_iff)
qed

lemma no_known_mine_heldD:
  assumes "no_known_mine_held ai" and "s \<in> set (knowledge ai)" and "c |\<in>| cells s"
  shows "c |\<notin>| mines ai"
proof
  assume "c |\<in>| mines ai"
  with assms(3) have "c |\<in>| cells s |\<inter>| mines ai"
    by simp
  moreover from assms(1,2) have "cells s |\<inter>| mines ai = {||}"
    by (simp add: no_known_mine_held_def list_all_iff)
  ultimately show False
    by simp
qed

lemma mark_mine_keeps:
  assumes "no_known_mine_held ai"
  shows "no_known_mine_held (mark_mine c ai)"
proof (rule no_known_mine_heldI)
  fix s x
  assume "s \<in> set (knowledge (mark_mine c ai))" and x: "x |\<in>| cells s"
  then obtain s0 where s0: "s0 \<in> set (knowledge ai)" and s: "s = Sentence_mark_mine s0 c"
    by auto
  from x s have "x |\<in>| cells s0" and "x \<noteq> c"
    by (auto simp: Sentence_mark_mine_def split: if_splits)
  with no_known_mine_heldD [OF assms s0] show "x |\<notin>| mines (mark_mine c ai)"
    by simp
qed

lemma mark_safe_keeps:
  assumes "no_known_mine_held ai"
  shows "no_known_mine_held (mark_safe c ai)"
proof (rule no_known_mine_heldI)
  fix s x
  assume "s \<in> set (knowledge (mark_safe c ai))" and x: "x |\<in>| cells s"
  then obtain s0 where s0: "s0 \<in> set (knowledge ai)" and s: "s = Sentence_mark_safe s0 c"
    by auto
  from x s have "x |\<in>| cells s0"
    by (simp add: Sentence_mark_safe_eq)
  with no_known_mine_heldD [OF assms s0] show "x |\<notin>| mines (mark_safe c ai)"
    by simp
qed

lemma fold_mark_mine_keeps:
  assumes "no_known_mine_held ai"
  shows "no_known_mine_held (fold mark_mine xs ai)"
  using assms by (induction xs arbitrary: ai) (simp_all add: mark_mine_keeps)

lemma fold_mark_safe_keeps:
  assumes "no_known_mine_held ai"
  shows "no_known_mine_held (fold mark_safe xs ai)"
  using assms by (induction xs arbitrary: ai) (simp_all add: mark_safe_keeps)

lemma mark_mines_keeps:
  assumes "no_known_mine_held ai"
  shows "no_known_mine_held (mark_mines S ai)"
  unfolding mark_mines_def using assms by (rule fold_mark_mine_keeps)

lemma mark_safes_keeps:
  assumes "no_known_mine_held ai"
  shows "no_known_mine_held (mark_safes S ai)"
  unfolding mark_safes_def using assms by (rule fold_mark_safe_keeps)

lemma closure_step_keeps:
  assumes "no_known_mine_held ai"
  shows "no_known_mine_held (closure_step ai i)"
  using assms by (simp add: closure_step_def Let_def mark_mines_keeps mark_safes_keeps)

lemma closure_scan_keeps:
  assumes "no_known_mine_held ai"
  shows "no_known_mine_held (foldl closure_step ai is)"
  using assms by (induction "is" arbitrary: ai) (simp_all add: closure_step_keeps)

lemma ingest_keeps:
  assumes "no_known_mine_held ai"
  shows "no_known_mine_held (ingest c n ai)"
proof (rule no_known_mine_heldI)
  fix s x
  assume s: "s \<in> set (knowledge (ingest c n ai))" and x: "x |\<in>| cells s"
  from s consider (old) s0 where "s0 \<in> set (knowledge ai)" "s = Sentence_mark_safe s0 c"
    | (new) "cells s = ffilter
        (\<lambda>c'. is_cell_valid ai c' \<and> c' |\<notin>| mines ai \<and> c' |\<notin>| finsert c (moves_made ai))
        (fset_of_list (block c))"
    by (auto simp: ingest_knowledge)
  then show "x |\<notin>| mines (ingest c n ai)"
  proof cases
    case old
    with x have "x |\<in>| cells s0"
      by (simp add: Sentence_mark_safe_eq)
    with no_known_mine_heldD [OF assms old(1)] show ?thesis
      by simp
  next
    case new
    with x show ?thesis
      by simp
  qed
qed

lemma prune_keeps:
  assumes "no_known_mine_held ai"
  shows "no_known_mine_held (prune ai)"
proof (rule no_known_mine_heldI)
  fix s x
  assume "s \<in> set (knowledge (prune ai))" and x: "x |\<in>| cells s"
  then have "s \<in> set (knowledge ai)"
    using prune_list_subset [of "knowledge ai"] by (auto simp: prune_knowledge)
  from no_known_mine_heldD [OF assms this x] show "x |\<notin>| mines (prune ai)"
    by simp
qed

lemma infer_keeps:
  assumes "no_known_mine_held ai"
  shows "no_known_mine_held (infer ai)"
proof (rule no_known_mine_heldI)
  fix s x
  assume s: "s \<in> set (knowledge (infer ai))" and x: "x |\<in>| cells s"
  have "\<exists>big \<in> set (knowledge ai). x |\<in>| cells big"
  proof (cases "s \<in> set (knowledge ai)")
    case True
    with x show ?thesis by blast
  next
    case False
    with s have "s \<in> set (new_knowledges (knowledge ai))"
      by simp
    from new_knowledges_sound [OF this] obtain big :: Sentence and small :: Sentence where
      "big \<in> set (knowledge ai)" "small \<in> set (knowledge ai)"
      "cells small |\<subset>| cells big"
      "s = \<lparr>cells = cells big |-| cells small, count = count big - count small\<rparr>"
      by blast
    with x show ?thesis
      by auto
  qed
  then obtain big where "big \<in> set (knowledge ai)" "x |\<in>| cells big"
    by blast
  from no_known_mine_heldD [OF assms this] show "x |\<notin>| mines (infer ai)"
    by simp
qed

lemma add_knowledge_keeps:
  assumes "no_known_mine_held ai"
  shows "no_known_mine_held (add_knowledge c n ai)"
  using assms
  by (simp add: add_knowledge_def closure_pass_def infer_keeps prune_keeps closure_scan_keeps
      ingest_keeps)

lemma exec_keeps:
  assumes "no_known_mine_held ai"
  shows "no_known_mine_held (exec call ai)"
  using assms
  by (cases call)
    (simp_all add: mark_mine_keeps mark_safe_keeps add_knowledge_keeps make_safe_move_def
      make_random_move_def)

lemma run_keeps:
  assumes "no_known_mine_held ai"
  shows "no_known_mine_held (run cs ai)"
  using assms unfolding run_def
  by (induction cs arbitrary: ai) (simp_all add: exec_keeps)

subsection \<open>A held sentence that names safe cells\<close>

lemma safe_cells_held_1: "add_knowledge (0, 0) 0 (init 8 8) =
  \<lparr>height = 8, width = 8, moves_made = {|(0, 0)|}, mines = {||},
   safes = {|(0, 0), (0, 1), (1, 0), (1, 1)|}, knowledge = []\<rparr>"
  by (simp add: add_knowledge_def ingest_eq closure_pass_def upt_rec init_def
      fset_eval engine_eval)

lemma safe_cells_held_2: "add_knowledge (0, 2) 1
  \<lparr>height = 8, width = 8, moves_made = {|(0, 0)|}, mines = {||},
   safes = {|(0, 0), (0, 1), (1, 0), (1, 1)|}, knowledge = []\<rparr> =
  \<lparr>height = 8, width = 8, moves_made = {|(0, 0), (0, 2)|}, mines = {||},
   safes = {|(0, 0), (0, 1), (0, 2), (1, 0), (1, 1)|},
   knowledge = [\<lparr>cells = {|(0, 1), (0, 3), (1, 1), (1, 2), (1, 3)|}, count = 1\<rparr>]\<rparr>"
  by (simp add: add_knowledge_def ingest_eq closure_pass_def upt_rec
      fset_eval engine_eval)

section \<open>The bounds of the grid\<close>

text \<open>
  \<^verbatim>\<open>is_cell_valid\<close> accepts exactly the cells of the grid: rows from 0 up to
  \<^verbatim>\<open>height\<close>, columns from 0 up to \<^verbatim>\<open>width\<close>, both bounds excluded at the top.
\<close>

lemma is_cell_valid_iff:
  "is_cell_valid ai c \<longleftrightarrow>
     0 \<le> fst c \<and> fst c < height ai \<and> 0 \<le> snd c \<and> snd c < width ai"
  by (cases c) (auto simp: is_cell_valid_def)

lemma valid_ffilter:
  "ffilter (\<lambda>c. P c \<and> is_cell_valid ai c) M =
   ffilter (\<lambda>c. P c \<and> 0 \<le> fst c \<and> fst c < height ai \<and> 0 \<le> snd c \<and> snd c < width ai) M"
  by (simp add: is_cell_valid_iff)

section \<open>What the scan adds to the two sets\<close>

text \<open>
  \<open>reached ai i\<close> is the sentence at position \<open>i\<close> as the scan started in \<open>ai\<close>
  finds it: the steps at the positions before \<open>i\<close> have been taken.
\<close>

definition reached :: "MinesweeperAI \<Rightarrow> nat \<Rightarrow> Sentence" where
  "reached ai i = knowledge (foldl closure_step ai [0..<i]) ! i"

lemma known_safes_after_mines:
  "known_safes (Sentence_minus_mines (known_mines s) s) = known_safes s"
  by (auto simp: known_safes_def known_mines_def Sentence_minus_mines_def fcard_fempty)

lemma closure_step_safes:
  assumes "i < length (knowledge ai)"
  shows "safes (closure_step ai i) = known_safes (knowledge ai ! i) |\<union>| safes ai"
  using assms by (simp add: closure_step_eq Let_def known_safes_after_mines)

lemma closure_scan_mines:
  "c |\<in>| mines (foldl closure_step ai [0..<n]) \<longleftrightarrow>
     c |\<in>| mines ai \<or> (\<exists>i<n. c |\<in>| known_mines (reached ai i))"
proof (induction n)
  case 0
  show ?case by simp
next
  case (Suc n)
  have "mines (foldl closure_step ai [0..<Suc n]) =
      known_mines (reached ai n) |\<union>| mines (foldl closure_step ai [0..<n])"
    by (simp add: closure_step_mines reached_def)
  then show ?case
    using Suc.IH by (auto simp: less_Suc_eq)
qed

lemma closure_scan_safes:
  assumes "n \<le> length (knowledge ai)"
  shows "c |\<in>| safes (foldl closure_step ai [0..<n]) \<longleftrightarrow>
     c |\<in>| safes ai \<or> (\<exists>i<n. c |\<in>| known_safes (reached ai i))"
  using assms
proof (induction n)
  case 0
  show ?case by simp
next
  case (Suc n)
  have "n < length (knowledge (foldl closure_step ai [0..<n]))"
    using Suc.prems by simp
  then have "safes (closure_step (foldl closure_step ai [0..<n]) n) =
      known_safes (reached ai n) |\<union>| safes (foldl closure_step ai [0..<n])"
    unfolding reached_def by (rule closure_step_safes)
  then have "safes (foldl closure_step ai [0..<Suc n]) =
      known_safes (reached ai n) |\<union>| safes (foldl closure_step ai [0..<n])"
    by simp
  then show ?case
    using Suc.IH Suc.prems by (auto simp: less_Suc_eq)
qed

lemma known_mines_iff:
  "c |\<in>| known_mines s \<longleftrightarrow> c |\<in>| cells s \<and> count s = int (fcard (cells s))"
  by (auto simp: known_mines_def)

lemma known_safes_iff:
  "c |\<in>| known_safes s \<longleftrightarrow> c |\<in>| cells s \<and> count s = 0"
  by (auto simp: known_safes_def)

section \<open>Properties of the engine\<close>



text \<open>
  C7. Over any sequence of calls (\<^verbatim>\<open>mark_mine\<close>, \<^verbatim>\<open>mark_safe\<close>,
  \<^verbatim>\<open>add_knowledge\<close> and the two move queries) on one engine, the sets
  \<^verbatim>\<open>moves_made\<close>, \<^verbatim>\<open>mines\<close> and \<^verbatim>\<open>safes\<close> only grow, and so do their
  cardinalities.
\<close>

theorem sets_only_grow:
  "moves_made ai |\<subseteq>| moves_made (run cs ai) \<and>
   mines ai |\<subseteq>| mines (run cs ai) \<and>
   safes ai |\<subseteq>| safes (run cs ai) \<and>
   fcard (moves_made ai) \<le> fcard (moves_made (run cs ai)) \<and>
   fcard (mines ai) \<le> fcard (mines (run cs ai)) \<and>
   fcard (safes ai) \<le> fcard (safes (run cs ai))"
proof -
  have grow: "moves_made ai |\<subseteq>| moves_made (run cs ai) \<and>
      mines ai |\<subseteq>| mines (run cs ai) \<and> safes ai |\<subseteq>| safes (run cs ai)"
  proof (induction cs arbitrary: ai)
    case Nil
    then show ?case by (simp add: run_def)
  next
    case (Cons call cs)
    have "run (call # cs) ai = run cs (exec call ai)"
      by (simp add: run_def)
    with Cons.IH [of "exec call ai"] exec_mono [of ai call] show ?case
      by (metis order_trans)
  qed
  then show ?thesis
    by (simp add: fcard_mono)
qed

text \<open>
  C8. Calling \<^verbatim>\<open>mark_safe\<close> twice with the same cell gives the state that calling it
  once gives, and likewise for \<^verbatim>\<open>mark_mine\<close>; on a sentence that does not hold the
  cell, \<^verbatim>\<open>set.remove\<close> raises \<^verbatim>\<open>KeyError\<close>, \<^verbatim>\<open>Sentence.mark_safe\<close> swallows
  it and leaves the sentence as it is.
\<close>

theorem marking_idempotent:
  "mark_safe c (mark_safe c ai) = mark_safe c ai \<and>
   mark_mine c (mark_mine c ai) = mark_mine c ai \<and>
   (c |\<notin>| cells s \<longrightarrow> set_remove (cells s) c = Inl KeyError \<and> Sentence_mark_safe s c = s)"
proof -
  have safe: "Sentence_mark_safe (Sentence_mark_safe s c) c = Sentence_mark_safe s c" for s
    by (simp add: Sentence_mark_safe_eq)
  have mine: "Sentence_mark_mine (Sentence_mark_mine s c) c = Sentence_mark_mine s c" for s
    by (simp add: Sentence_mark_mine_def)
  have "mark_safe c (mark_safe c ai) = mark_safe c ai"
    by (simp add: mark_safe_def safe comp_def)
  moreover have "mark_mine c (mark_mine c ai) = mark_mine c ai"
    by (simp add: mark_mine_def mine comp_def)
  moreover have "c |\<notin>| cells s \<longrightarrow>
      set_remove (cells s) c = Inl KeyError \<and> Sentence_mark_safe s c = s"
    by (simp add: Sentence_mark_safe_def set_remove_def)
  ultimately show ?thesis by simp
qed

theorem marking_idempotent_witness:
  "(0, 0) |\<notin>| cells \<lparr>cells = {|(0, 1)|}, count = 1\<rparr> \<and>
   set_remove (cells \<lparr>cells = {|(0, 1)|}, count = 1\<rparr>) (0, 0) = Inl KeyError \<and>
   Sentence_mark_safe \<lparr>cells = {|(0, 1)|}, count = 1\<rparr> (0, 0) =
     \<lparr>cells = {|(0, 1)|}, count = 1\<rparr> \<and>
   mark_safe (0, 0) (mark_safe (0, 0) (init 8 8)) = mark_safe (0, 0) (init 8 8) \<and>
   mark_mine (0, 0) (mark_mine (0, 0) (init 8 8)) = mark_mine (0, 0) (init 8 8)"
  using marking_idempotent [of "(0, 0)" "init 8 8" "\<lparr>cells = {|(0, 1)|}, count = 1\<rparr>"]
  by simp

text \<open>
  C9. Whatever the order in which the set \<^verbatim>\<open>safes\<close> is iterated,
  \<^verbatim>\<open>make_safe_move\<close> returns a cell that is in \<^verbatim>\<open>safes\<close> and not in
  \<^verbatim>\<open>moves_made\<close> when there is one, returns \<^verbatim>\<open>None\<close> when there is none, and
  leaves the engine as it was.
\<close>

theorem make_safe_move_correct:
  assumes "fset_of_list order = safes ai"
  shows "(safes ai |-| moves_made ai \<noteq> {||} \<longrightarrow>
            (\<exists>c. fst (make_safe_move order ai) = Some c \<and> c |\<in>| safes ai \<and> c |\<notin>| moves_made ai)) \<and>
         (safes ai |-| moves_made ai = {||} \<longrightarrow> fst (make_safe_move order ai) = None) \<and>
         snd (make_safe_move order ai) = ai"
proof -
  have mem: "c |\<in>| safes ai \<longleftrightarrow> c \<in> set order" for c
    using assms by (metis fset_of_list_elem)
  show ?thesis
  proof (cases "find (\<lambda>c. c |\<notin>| moves_made ai) order")
    case None
    then have "c |\<in>| moves_made ai" if "c \<in> set order" for c
      using that by (cases c) (auto simp: find_None_iff)
    with mem have "safes ai |-| moves_made ai = {||}"
      by auto
    with None show ?thesis
      by (simp add: make_safe_move_def)
  next
    case (Some c)
    then have "c \<in> set order" and "c |\<notin>| moves_made ai"
      by (auto simp: find_Some_iff)
    with mem have "c |\<in>| safes ai |-| moves_made ai"
      by simp
    with Some show ?thesis
      by (auto simp: make_safe_move_def)
  qed
qed

theorem make_safe_move_correct_witness:
  "fst (make_safe_move [(0, 0), (0, 1)]
     ((init 8 8)\<lparr>safes := {|(0, 0), (0, 1)|}, moves_made := {|(0, 0)|}\<rparr>)) = Some (0, 1) \<and>
   fst (make_safe_move [] (init 8 8)) = None"
proof -
  let ?ai = "(init 8 8)\<lparr>safes := {|(0, 0), (0, 1)|}, moves_made := {|(0, 0)|}\<rparr>"
  have "fset_of_list [(0, 0), (0, 1)] = safes ?ai"
    by simp
  from make_safe_move_correct [OF this]
  have "\<exists>c. fst (make_safe_move [(0, 0), (0, 1)] ?ai) = Some c \<and> c |\<in>| safes ?ai \<and> c |\<notin>| moves_made ?ai"
    by auto
  then have "fst (make_safe_move [(0, 0), (0, 1)] ?ai) = Some (0, 1)"
    by auto
  moreover have "fset_of_list [] = safes (init 8 8)"
    by (simp add: init_def)
  from make_safe_move_correct [OF this]
  have "fst (make_safe_move [] (init 8 8)) = None"
    by (simp add: init_def)
  ultimately show ?thesis by simp
qed

text \<open>
  C3. The claim: the sentence appended by \<^verbatim>\<open>add_knowledge\<close> holds exactly the cells
  of the grid at Chebyshev distance 1 from the revealed cell that are neither known mines
  nor moves made, and its count is the given count less one for each known mine among
  those neighbours. The loops also visit the revealed cell itself: when that cell is a
  known mine (here \<open>(0, 0)\<close>, marked by \<^verbatim>\<open>mark_mine\<close> on an empty 8 by 8 engine) the
  count is decremented for it too, so a count of 1 becomes 0 although no neighbour is a
  known mine.
\<close>

theorem revealed_known_mine_decrements:
  "ffilter (\<lambda>c. chebyshev c (0, 0) = 1) (mines (mark_mine (0, 0) (init 8 8))) = {||} \<and>
   count (last (knowledge (ingest (0, 0) 1 (mark_mine (0, 0) (init 8 8))))) = 0"
proof -
  let ?ai = "mark_mine (0, 0) (init 8 8)"
  have "ffilter (\<lambda>c. chebyshev c (0, 0) = 1) (mines ?ai) = {||}"
    by (auto simp: chebyshev_def)
  moreover have "count (last (knowledge (ingest (0, 0) 1 ?ai))) = 0"
    by (simp add: ingest_knowledge block_eq is_cell_valid_def)
  ultimately show ?thesis by simp
qed

text \<open>
  C3, for a revealed cell that is not a known mine: the appended sentence (the last of
  the list, one longer than before) holds exactly the cells at distance 1 with a row from
  0 to \<open>height - 1\<close> and a column from 0 to \<open>width - 1\<close> that are neither known
  mines nor moves made, and its count is the given count less the number of known mines
  among the cells at distance 1 within the same bounds.
\<close>

theorem new_sentence_neighbourhood:
  assumes "cell |\<notin>| mines ai"
  shows "length (knowledge (ingest cell n ai)) = Suc (length (knowledge ai)) \<and>
    (\<forall>c. c |\<in>| cells (last (knowledge (ingest cell n ai))) \<longleftrightarrow>
       chebyshev c cell = 1 \<and>
       0 \<le> fst c \<and> fst c < height ai \<and> 0 \<le> snd c \<and> snd c < width ai \<and>
       c |\<notin>| mines ai \<and> c |\<notin>| moves_made ai) \<and>
    count (last (knowledge (ingest cell n ai))) =
       n - int (fcard (ffilter
         (\<lambda>c. chebyshev c cell = 1 \<and>
              0 \<le> fst c \<and> fst c < height ai \<and> 0 \<le> snd c \<and> snd c < width ai)
         (mines ai)))"
proof -
  let ?s = "last (knowledge (ingest cell n ai))"
  have len: "length (knowledge (ingest cell n ai)) = Suc (length (knowledge ai))"
    by (simp add: ingest_knowledge)
  have "c |\<in>| cells ?s \<longleftrightarrow>
       chebyshev c cell = 1 \<and> is_cell_valid ai c \<and> c |\<notin>| mines ai \<and> c |\<notin>| moves_made ai" for c
    by (auto simp: ingest_knowledge fset_of_list_elem block_set chebyshev_one)
  then have mem: "c |\<in>| cells ?s \<longleftrightarrow>
       chebyshev c cell = 1 \<and>
       0 \<le> fst c \<and> fst c < height ai \<and> 0 \<le> snd c \<and> snd c < width ai \<and>
       c |\<notin>| mines ai \<and> c |\<notin>| moves_made ai" for c
    unfolding is_cell_valid_iff by simp
  have "ffilter (\<lambda>c. chebyshev c cell \<le> 1 \<and> is_cell_valid ai c) (mines ai) =
      ffilter (\<lambda>c. chebyshev c cell = 1 \<and> is_cell_valid ai c) (mines ai)"
    using assms by (auto simp: chebyshev_one)
  then have "count ?s =
       n - int (fcard (ffilter (\<lambda>c. chebyshev c cell = 1 \<and> is_cell_valid ai c) (mines ai)))"
    by (simp add: ingest_knowledge block_mines_count)
  then have cnt: "count ?s =
       n - int (fcard (ffilter
         (\<lambda>c. chebyshev c cell = 1 \<and>
              0 \<le> fst c \<and> fst c < height ai \<and> 0 \<le> snd c \<and> snd c < width ai)
         (mines ai)))"
    unfolding valid_ffilter .
  from len mem cnt show ?thesis by blast
qed

theorem new_sentence_neighbourhood_witness:
  "(0, 0) |\<notin>| mines (mark_mine (0, 1) (init 8 8)) \<and>
   (0, 1) |\<notin>| cells (last (knowledge (ingest (0, 0) 1 (mark_mine (0, 1) (init 8 8))))) \<and>
   (1, 1) |\<in>| cells (last (knowledge (ingest (0, 0) 1 (mark_mine (0, 1) (init 8 8))))) \<and>
   (- 1, 0) |\<notin>| cells (last (knowledge (ingest (0, 0) 1 (mark_mine (0, 1) (init 8 8))))) \<and>
   (1, - 1) |\<notin>| cells (last (knowledge (ingest (0, 0) 1 (mark_mine (0, 1) (init 8 8))))) \<and>
   count (last (knowledge (ingest (0, 0) 1 (mark_mine (0, 1) (init 8 8))))) = 0"
proof -
  let ?ai = "mark_mine (0, 1) (init 8 8)"
  have free: "(0, 0) |\<notin>| mines ?ai"
    by simp
  have "ffilter (\<lambda>c. chebyshev c (0, 0) = 1 \<and>
          0 \<le> fst c \<and> fst c < height ?ai \<and> 0 \<le> snd c \<and> snd c < width ?ai) {|(0, 1)|} =
      {|(0, 1)|}"
    by (auto simp: chebyshev_def)
  then have "fcard (ffilter (\<lambda>c. chebyshev c (0, 0) = 1 \<and>
          0 \<le> fst c \<and> fst c < height ?ai \<and> 0 \<le> snd c \<and> snd c < width ?ai) (mines ?ai)) = 1"
    by (simp add: fcard_finsert_if)
  with new_sentence_neighbourhood [OF free, of 1] free show ?thesis
    by (simp add: chebyshev_def)
qed




text \<open>
  C4. The claim: when an \<^verbatim>\<open>add_knowledge\<close> call is over, the knowledge holds no
  sentence without cells and no two equal sentences. Subset inference runs after the
  pruning and nothing prunes its results in the same call: after the reveals of
  \<open>(0, 0)\<close> with count 1, \<open>(0, 1)\<close> with count 2 and \<open>(7, 7)\<close> with count 1 on an
  empty 8 by 8 engine, the sentences \<open>{(0, 2), (1, 2)} = 1\<close> and \<open>{(1, 0), (1, 1)} = 1\<close>
  are each held twice.
\<close>

theorem duplicates_after_inference:
  "\<not> distinct (knowledge
      (add_knowledge (7, 7) 1 (add_knowledge (0, 1) 2 (add_knowledge (0, 0) 1 (init 8 8)))))"
  by (simp only: reveal_1 reveal_2 reveal_3) simp

text \<open>
  C4, as the code has it: when an \<^verbatim>\<open>add_knowledge\<close> call is over, the knowledge is
  the pruned list followed by the sentences derived from it; no two sentences of the
  pruned list have the same cells, and no sentence of the whole list is without cells.
\<close>

theorem pruned_then_derived:
  "knowledge (add_knowledge cell n ai) =
     knowledge (prune (closure_pass (ingest cell n ai))) @
     new_knowledges (knowledge (prune (closure_pass (ingest cell n ai)))) \<and>
   distinct (map cells (knowledge (prune (closure_pass (ingest cell n ai))))) \<and>
   {||} \<notin> cells ` set (knowledge (add_knowledge cell n ai))"
proof -
  let ?kn = "prune_list (knowledge (closure_pass (ingest cell n ai)))"
  have "{||} \<notin> cells ` set ?kn"
    using prune_list_nonempty by fastforce
  moreover have "{||} \<notin> cells ` set (new_knowledges ?kn)"
    using new_knowledges_nonempty by fastforce
  ultimately have "{||} \<notin> cells ` set (knowledge (add_knowledge cell n ai))"
    by (simp add: add_knowledge_knowledge image_Un)
  then show ?thesis
    by (simp add: add_knowledge_knowledge prune_knowledge prune_list_distinct)
qed

text \<open>
  C1. The claim: for two held sentences, one with strictly more cells that include all
  cells of the other, \<^verbatim>\<open>add_knowledge\<close> appends the sentence of the difference; with
  \<open>{(0, 0), (0, 1), (0, 2)} = 1\<close> and \<open>{(0, 0), (0, 1)} = 1\<close> held, one pass derives
  \<open>{(0, 2)} = 0\<close> and marks \<open>(0, 2)\<close> safe. The closure scan runs before the inference
  and is not run again: the call that derives \<open>{(0, 2)} = 0\<close> (here the reveal of
  \<open>(7, 7)\<close> with count 0 on an 8 by 8 engine holding the two sentences) leaves
  \<open>(0, 2)\<close> out of \<^verbatim>\<open>safes\<close>.
\<close>

theorem derived_not_marked_in_same_call:
  "\<lparr>cells = {|(0, 2)|}, count = 0\<rparr> \<in> set (knowledge (add_knowledge (7, 7) 0
      ((init 8 8)\<lparr>knowledge := [\<lparr>cells = {|(0, 0), (0, 1), (0, 2)|}, count = 1\<rparr>,
                                   \<lparr>cells = {|(0, 0), (0, 1)|}, count = 1\<rparr>]\<rparr>))) \<and>
   (0, 2) |\<notin>| safes (add_knowledge (7, 7) 0
      ((init 8 8)\<lparr>knowledge := [\<lparr>cells = {|(0, 0), (0, 1), (0, 2)|}, count = 1\<rparr>,
                                   \<lparr>cells = {|(0, 0), (0, 1)|}, count = 1\<rparr>]\<rparr>))"
  by (simp only: subset_example_1) simp

text \<open>
  C1, as the code has it: for every two sentences held when the inference starts (the
  closure scan and the pruning done), one with cells strictly inside the cells of the
  other, the call appends the sentence of the difference of the cells and of the counts;
  the inference changes neither \<^verbatim>\<open>safes\<close> nor \<^verbatim>\<open>mines\<close>, which are as the closure
  scan left them. In the example the call appends \<open>{(0, 2)} = 0\<close>, and the closure scan
  of the next call (the reveal of \<open>(7, 6)\<close> with count 0) marks \<open>(0, 2)\<close> safe.
\<close>

theorem subset_inference:
  "(\<forall>i j. i < length (knowledge (prune (closure_pass (ingest cell n ai)))) \<and>
          j < length (knowledge (prune (closure_pass (ingest cell n ai)))) \<and>
          cells (knowledge (prune (closure_pass (ingest cell n ai))) ! j) |\<subset>|
          cells (knowledge (prune (closure_pass (ingest cell n ai))) ! i) \<longrightarrow>
          \<lparr>cells = cells (knowledge (prune (closure_pass (ingest cell n ai))) ! i) |-|
                   cells (knowledge (prune (closure_pass (ingest cell n ai))) ! j),
           count = count (knowledge (prune (closure_pass (ingest cell n ai))) ! i) -
                   count (knowledge (prune (closure_pass (ingest cell n ai))) ! j)\<rparr>
          \<in> set (knowledge (add_knowledge cell n ai))) \<and>
   safes (add_knowledge cell n ai) = safes (closure_pass (ingest cell n ai)) \<and>
   mines (add_knowledge cell n ai) = mines (closure_pass (ingest cell n ai)) \<and>
   (0, 2) |\<in>| safes (add_knowledge (7, 6) 0 (add_knowledge (7, 7) 0
      ((init 8 8)\<lparr>knowledge := [\<lparr>cells = {|(0, 0), (0, 1), (0, 2)|}, count = 1\<rparr>,
                                   \<lparr>cells = {|(0, 0), (0, 1)|}, count = 1\<rparr>]\<rparr>)))"
proof -
  let ?kn = "prune_list (knowledge (closure_pass (ingest cell n ai)))"
  have kn: "knowledge (prune (closure_pass (ingest cell n ai))) = ?kn"
    by (rule prune_knowledge)
  have "\<lparr>cells = cells (?kn ! i) |-| cells (?kn ! j), count = count (?kn ! i) - count (?kn ! j)\<rparr>
      \<in> set (knowledge (add_knowledge cell n ai))"
    if "i < length ?kn" "j < length ?kn" "cells (?kn ! j) |\<subset>| cells (?kn ! i)" for i j
  proof -
    have "?kn ! j \<in> set ?kn"
      using that(2) by simp
    then have "cells (?kn ! j) \<noteq> {||}"
      by (rule prune_list_nonempty)
    with that show ?thesis
      by (simp add: add_knowledge_knowledge new_knowledges_derives)
  qed
  moreover have "safes (add_knowledge cell n ai) = safes (closure_pass (ingest cell n ai))"
    and "mines (add_knowledge cell n ai) = mines (closure_pass (ingest cell n ai))"
    by (simp_all add: add_knowledge_def)
  moreover have "(0, 2) |\<in>| safes (add_knowledge (7, 6) 0 (add_knowledge (7, 7) 0
      ((init 8 8)\<lparr>knowledge := [\<lparr>cells = {|(0, 0), (0, 1), (0, 2)|}, count = 1\<rparr>,
                                   \<lparr>cells = {|(0, 0), (0, 1)|}, count = 1\<rparr>]\<rparr>)))"
    by (simp only: subset_example_1 subset_example_2) simp
  ultimately show ?thesis
    unfolding kn by blast
qed

theorem subset_inference_witness:
  "{|(0, 0), (0, 1)|} |\<subset>| {|(0, 0), (0, 1), (0::int, 2::int)|} \<and>
   \<lparr>cells = {|(0, 2)|}, count = 0\<rparr> \<in> set (knowledge (add_knowledge (7, 7) 0
      ((init 8 8)\<lparr>knowledge := [\<lparr>cells = {|(0, 0), (0, 1), (0, 2)|}, count = 1\<rparr>,
                                   \<lparr>cells = {|(0, 0), (0, 1)|}, count = 1\<rparr>]\<rparr>)))"
proof -
  let ?ai = "(init 8 8)\<lparr>knowledge := [\<lparr>cells = {|(0, 0), (0, 1), (0, 2)|}, count = 1\<rparr>,
                                        \<lparr>cells = {|(0, 0), (0, 1)|}, count = 1\<rparr>]\<rparr>"
  have sub: "{|(0, 0), (0, 1)|} |\<subset>| {|(0, 0), (0, 1), (0::int, 2::int)|}"
    by (simp add: pfsubset_eq fset_eval)
  have diff: "{|(0, 0), (0, 1), (0::int, 2::int)|} |-| {|(0, 0), (0, 1)|} = {|(0, 2)|}"
    by (simp add: fset_eval)
  from subset_inference [of "(7, 7)" 0 ?ai]
  have "0 < length (knowledge (prune (closure_pass (ingest (7, 7) 0 ?ai)))) \<and>
        1 < length (knowledge (prune (closure_pass (ingest (7, 7) 0 ?ai)))) \<and>
        cells (knowledge (prune (closure_pass (ingest (7, 7) 0 ?ai))) ! 1) |\<subset>|
        cells (knowledge (prune (closure_pass (ingest (7, 7) 0 ?ai))) ! 0) \<longrightarrow>
        \<lparr>cells = cells (knowledge (prune (closure_pass (ingest (7, 7) 0 ?ai))) ! 0) |-|
                 cells (knowledge (prune (closure_pass (ingest (7, 7) 0 ?ai))) ! 1),
         count = count (knowledge (prune (closure_pass (ingest (7, 7) 0 ?ai))) ! 0) -
                 count (knowledge (prune (closure_pass (ingest (7, 7) 0 ?ai))) ! 1)\<rparr>
        \<in> set (knowledge (add_knowledge (7, 7) 0 ?ai))"
    by blast
  with sub show ?thesis
    by (simp add: subset_example_pruned diff)
qed

text \<open>
  C2. The claim: when the closure scan of an \<^verbatim>\<open>add_knowledge\<close> call is over, every
  held sentence with cells and a count equal to their number has all its cells in
  \<^verbatim>\<open>mines\<close> (and every cell of a held sentence with count 0 is in \<^verbatim>\<open>safes\<close>). The
  scan visits each sentence once: after the reveal of \<open>(0, 0)\<close> with count 1 on an
  empty 8 by 8 engine, the scan of the reveal of \<open>(2, 0)\<close> with count 0 passes
  \<open>{(0, 1), (1, 0), (1, 1)} = 1\<close> first and then marks \<open>(1, 0)\<close> and \<open>(1, 1)\<close> safe
  from the new sentence, which leaves \<open>{(0, 1)} = 1\<close> held and \<open>(0, 1)\<close> out of
  \<^verbatim>\<open>mines\<close>.
\<close>

theorem single_scan_leaves_known_mine:
  "knowledge (closure_pass (ingest (2, 0) 0 (add_knowledge (0, 0) 1 (init 8 8)))) =
     [\<lparr>cells = {|(0, 1)|}, count = 1\<rparr>, \<lparr>cells = {||}, count = 0\<rparr>] \<and>
   mines (closure_pass (ingest (2, 0) 0 (add_knowledge (0, 0) 1 (init 8 8)))) = {||}"
  by (simp only: reveal_1 late_resolution) simp

text \<open>
  C2, as the code has it: the scan visits the positions of the list once, in order. A
  sentence whose count equals the number of its cells at the moment the scan reaches its
  position has all those cells in \<^verbatim>\<open>mines\<close> when the scan is over, and a sentence
  whose count is 0 at that moment has all those cells in \<^verbatim>\<open>safes\<close>. The scan adds
  nothing else: when it is over, \<^verbatim>\<open>mines\<close> holds exactly the cells it held before
  and the cells of the sentences whose count equalled the number of their cells when the
  scan reached them, and \<^verbatim>\<open>safes\<close> exactly the cells it held before and the cells of
  the sentences whose count was 0 when the scan reached them.
\<close>

theorem closure_scan_marks:
  "(\<forall>i < length (knowledge ai).
      (count (reached ai i) = int (fcard (cells (reached ai i))) \<longrightarrow>
       cells (reached ai i) |\<subseteq>| mines (closure_pass ai)) \<and>
      (count (reached ai i) = 0 \<longrightarrow>
       cells (reached ai i) |\<subseteq>| safes (closure_pass ai))) \<and>
   (\<forall>c. c |\<in>| mines (closure_pass ai) \<longleftrightarrow>
      c |\<in>| mines ai \<or>
      (\<exists>i < length (knowledge ai).
         c |\<in>| cells (reached ai i) \<and> count (reached ai i) = int (fcard (cells (reached ai i))))) \<and>
   (\<forall>c. c |\<in>| safes (closure_pass ai) \<longleftrightarrow>
      c |\<in>| safes ai \<or>
      (\<exists>i < length (knowledge ai). c |\<in>| cells (reached ai i) \<and> count (reached ai i) = 0))"
proof -
  have m: "c |\<in>| mines (closure_pass ai) \<longleftrightarrow>
      c |\<in>| mines ai \<or>
      (\<exists>i < length (knowledge ai).
         c |\<in>| cells (reached ai i) \<and> count (reached ai i) = int (fcard (cells (reached ai i))))"
    for c
    unfolding closure_pass_def closure_scan_mines known_mines_iff ..
  have s: "c |\<in>| safes (closure_pass ai) \<longleftrightarrow>
      c |\<in>| safes ai \<or>
      (\<exists>i < length (knowledge ai). c |\<in>| cells (reached ai i) \<and> count (reached ai i) = 0)"
    for c
    unfolding closure_pass_def using closure_scan_safes [of "length (knowledge ai)" ai c]
    by (simp add: known_safes_iff)
  have "cells (reached ai i) |\<subseteq>| mines (closure_pass ai)"
    if "i < length (knowledge ai)" "count (reached ai i) = int (fcard (cells (reached ai i)))"
    for i
  proof
    fix c
    assume "c |\<in>| cells (reached ai i)"
    with that show "c |\<in>| mines (closure_pass ai)"
      unfolding m by blast
  qed
  moreover have "cells (reached ai i) |\<subseteq>| safes (closure_pass ai)"
    if "i < length (knowledge ai)" "count (reached ai i) = 0" for i
  proof
    fix c
    assume "c |\<in>| cells (reached ai i)"
    with that show "c |\<in>| safes (closure_pass ai)"
      unfolding s by blast
  qed
  ultimately show ?thesis
    using m s by blast
qed

theorem closure_scan_marks_witness:
  "(1, 0) |\<in>| safes (closure_pass (ingest (2, 0) 0
     \<lparr>height = 8, width = 8, moves_made = {|(0, 0)|}, mines = {||}, safes = {|(0, 0)|},
      knowledge = [\<lparr>cells = {|(0, 1), (1, 0), (1, 1)|}, count = 1\<rparr>]\<rparr>)) \<and>
   (0, 1) |\<notin>| mines (closure_pass (ingest (2, 0) 0
     \<lparr>height = 8, width = 8, moves_made = {|(0, 0)|}, mines = {||}, safes = {|(0, 0)|},
      knowledge = [\<lparr>cells = {|(0, 1), (1, 0), (1, 1)|}, count = 1\<rparr>]\<rparr>)) \<and>
   (0, 1) |\<in>| mines (closure_pass (ingest (7, 7) 0
     \<lparr>height = 8, width = 8, moves_made = {|(0, 0), (2, 0)|}, mines = {||},
      safes = {|(0, 0), (1, 0), (1, 1), (2, 0), (2, 1), (3, 0), (3, 1)|},
      knowledge = [\<lparr>cells = {|(0, 1)|}, count = 1\<rparr>]\<rparr>))"
proof -
  let ?ai = "ingest (2, 0) 0
     \<lparr>height = 8, width = 8, moves_made = {|(0, 0)|}, mines = {||}, safes = {|(0, 0)|},
      knowledge = [\<lparr>cells = {|(0, 1), (1, 0), (1, 1)|}, count = 1\<rparr>]\<rparr>"
  have ai: "?ai =
     \<lparr>height = 8, width = 8, moves_made = {|(0, 0), (2, 0)|}, mines = {||},
      safes = {|(0, 0), (2, 0)|},
      knowledge = [\<lparr>cells = {|(0, 1), (1, 0), (1, 1)|}, count = 1\<rparr>,
                   \<lparr>cells = {|(1, 0), (1, 1), (2, 1), (3, 0), (3, 1)|}, count = 0\<rparr>]\<rparr>"
    by (simp add: ingest_eq fset_eval engine_eval)
  have a0: "reached ?ai 0 = \<lparr>cells = {|(0, 1), (1, 0), (1, 1)|}, count = 1\<rparr>"
    unfolding ai by (simp add: reached_def)
  have a1: "reached ?ai 1 = \<lparr>cells = {|(1, 0), (1, 1), (2, 1), (3, 0), (3, 1)|}, count = 0\<rparr>"
    unfolding ai by (simp add: reached_def fset_eval engine_eval)
  have la: "length (knowledge ?ai) = Suc (Suc 0)"
    unfolding ai by simp
  note A = closure_scan_marks [of ?ai]
  from A have "\<forall>i < length (knowledge ?ai).
      (count (reached ?ai i) = int (fcard (cells (reached ?ai i))) \<longrightarrow>
       cells (reached ?ai i) |\<subseteq>| mines (closure_pass ?ai)) \<and>
      (count (reached ?ai i) = 0 \<longrightarrow>
       cells (reached ?ai i) |\<subseteq>| safes (closure_pass ?ai))"
    by (rule conjunct1)
  from this [rule_format, of 1] have safe: "(1, 0) |\<in>| safes (closure_pass ?ai)"
    unfolding la a1 by simp
  from A have "\<forall>c. c |\<in>| mines (closure_pass ?ai) \<longleftrightarrow>
      c |\<in>| mines ?ai \<or>
      (\<exists>i < length (knowledge ?ai).
         c |\<in>| cells (reached ?ai i) \<and>
         count (reached ?ai i) = int (fcard (cells (reached ?ai i))))"
    by (rule conjunct1 [OF conjunct2])
  from this [rule_format, of "(0, 1)"] have iff: "(0, 1) |\<in>| mines (closure_pass ?ai) \<longleftrightarrow>
      (\<exists>i < length (knowledge ?ai).
         (0, 1) |\<in>| cells (reached ?ai i) \<and>
         count (reached ?ai i) = int (fcard (cells (reached ?ai i))))"
    by simp
  have out: "(0, 1) |\<notin>| mines (closure_pass ?ai)"
  proof
    assume "(0, 1) |\<in>| mines (closure_pass ?ai)"
    with iff obtain i where i: "i < length (knowledge ?ai)"
      and c: "count (reached ?ai i) = int (fcard (cells (reached ?ai i)))"
      by blast
    from i have "i = 0 \<or> i = 1"
      unfolding la by auto
    then show False
    proof
      assume "i = 0"
      with c have "count (reached ?ai 0) = int (fcard (cells (reached ?ai 0)))"
        by simp
      then show False
        unfolding a0 by (simp add: fset_eval)
    next
      assume "i = 1"
      with c have "count (reached ?ai 1) = int (fcard (cells (reached ?ai 1)))"
        by simp
      then show False
        unfolding a1 by (simp add: fset_eval)
    qed
  qed
  let ?bi = "ingest (7, 7) 0
     \<lparr>height = 8, width = 8, moves_made = {|(0, 0), (2, 0)|}, mines = {||},
      safes = {|(0, 0), (1, 0), (1, 1), (2, 0), (2, 1), (3, 0), (3, 1)|},
      knowledge = [\<lparr>cells = {|(0, 1)|}, count = 1\<rparr>]\<rparr>"
  have bi: "knowledge ?bi =
      [\<lparr>cells = {|(0, 1)|}, count = 1\<rparr>, \<lparr>cells = {|(6, 6), (6, 7), (7, 6)|}, count = 0\<rparr>]"
    by (simp add: ingest_eq fset_eval engine_eval)
  have b0: "reached ?bi 0 = \<lparr>cells = {|(0, 1)|}, count = 1\<rparr>"
    by (simp add: reached_def bi)
  from closure_scan_marks [of ?bi] have "\<forall>i < length (knowledge ?bi).
      (count (reached ?bi i) = int (fcard (cells (reached ?bi i))) \<longrightarrow>
       cells (reached ?bi i) |\<subseteq>| mines (closure_pass ?bi)) \<and>
      (count (reached ?bi i) = 0 \<longrightarrow>
       cells (reached ?bi i) |\<subseteq>| safes (closure_pass ?bi))"
    by (rule conjunct1)
  from this [rule_format, of 0] have "(0, 1) |\<in>| mines (closure_pass ?bi)"
    unfolding b0 by (simp add: bi fset_eval)
  with safe out show ?thesis by simp
qed

text \<open>
  C10. From a new engine, after any sequence of calls (\<^verbatim>\<open>mark_mine\<close>,
  \<^verbatim>\<open>mark_safe\<close>, \<^verbatim>\<open>add_knowledge\<close>, the move queries), no held sentence has a cell
  that is in \<^verbatim>\<open>mines\<close>. The same does not hold of \<^verbatim>\<open>safes\<close>: after the reveals of
  \<open>(0, 0)\<close> with count 0 and of \<open>(0, 2)\<close> with count 1 on an empty 8 by 8 engine, the
  held sentence has the cells \<open>(0, 1)\<close> and \<open>(1, 1)\<close>, which are in \<^verbatim>\<open>safes\<close>.
\<close>

theorem known_mines_never_held:
  "no_known_mine_held (run cs (init h w)) \<and>
   knowledge (run [Add_knowledge (0, 0) 0, Add_knowledge (0, 2) 1] (init 8 8)) =
     [\<lparr>cells = {|(0, 1), (0, 3), (1, 1), (1, 2), (1, 3)|}, count = 1\<rparr>] \<and>
   (0, 1) |\<in>| safes (run [Add_knowledge (0, 0) 0, Add_knowledge (0, 2) 1] (init 8 8))"
proof -
  have "no_known_mine_held (init h w)"
    by (simp add: no_known_mine_held_def)
  then have "no_known_mine_held (run cs (init h w))"
    by (rule run_keeps)
  moreover have "run [Add_knowledge (0, 0) 0, Add_knowledge (0, 2) 1] (init 8 8) =
      \<lparr>height = 8, width = 8, moves_made = {|(0, 0), (0, 2)|}, mines = {||},
       safes = {|(0, 0), (0, 1), (0, 2), (1, 0), (1, 1)|},
       knowledge = [\<lparr>cells = {|(0, 1), (0, 3), (1, 1), (1, 2), (1, 3)|}, count = 1\<rparr>]\<rparr>"
    by (simp add: run_def safe_cells_held_1 safe_cells_held_2)
  ultimately show ?thesis
    by simp
qed

end
